theory Spec2Isabelle
  imports
    Main
    "HOL-Library.Char_ord"
    "HOL-Library.List_Lexorder"
    "HOL-Library.Log_Nat"
    "HOL-Library.AList"
begin

section \<open>Python values and exceptions\<close>

text \<open>
  The exceptions the modelled code can raise.  \<open>CorruptDataError\<close> stands for what
  \<open>lzma\<close> and \<open>pickle\<close> raise on a malformed resource (\<open>LZMAError\<close>,
  \<open>UnpicklingError\<close>, \<open>EOFError\<close>).
\<close>

datatype error =
    TypeError
  | IndexError
  | KeyError
  | FileNotFoundError
  | CorruptDataError
  | AssertionError
  | NotImplementedError

text \<open>A dictionary file maps surface forms to lemmas; a \<open>dict\<close> keeps insertion order.\<close>

type_synonym dictionary = "(string \<times> string) list"

text \<open>
  The Python objects that reach the modelled functions: the argument of
  \<open>get_dictionaries\<close> is typed \<open>Optional[Union[str, Tuple[str]]]\<close> but checked at run
  time only, and \<open>pickle.load\<close> may return any object.
\<close>

datatype pyval =
    PNone
  | PInt int
  | PStr string
  | PTuple "string list"
  | PList "string list"
  | PDict dictionary

text \<open>
  Python's \<open>==\<close> on these objects.  Sequences of different types never compare equal:
  \<open>(1, 2) == [1, 2]\<close> is \<open>False\<close>.
\<close>

fun py_eq :: "pyval \<Rightarrow> pyval \<Rightarrow> bool" where
  "py_eq PNone PNone = True"
| "py_eq (PInt i) (PInt j) = (i = j)"
| "py_eq (PStr a) (PStr b) = (a = b)"
| "py_eq (PTuple xs) (PTuple ys) = (xs = ys)"
| "py_eq (PList xs) (PList ys) = (xs = ys)"
| "py_eq (PDict d) (PDict e) =
     (list_all (\<lambda>(k, v). map_of e k = Some v) d \<and> list_all (\<lambda>(k, v). map_of d k = Some v) e)"
| "py_eq _ _ = False"

section \<open>Numbers: \<open>int\<close> and \<open>float\<close>\<close>

text \<open>
  \<open>capitalized_threshold\<close> is annotated \<open>float\<close>, and \<open>RelaxedMostCommonTokenSampler\<close>
  passes the \<open>int\<close> \<open>0\<close>.  A \<open>float\<close> is an IEEE 754 binary64 number:
  \<open>Finite m e\<close> stands for \<open>m * 2 ^ e\<close> (the sign of a zero is not kept, no operation
  below reads it).
\<close>

datatype pyfloat = Finite int int | PosInf | NegInf | NaN

datatype pynum = PyInt int | PyFloat pyfloat

text \<open>\<open>a / 2 ^ k\<close> for \<open>a \<ge> 0\<close>, rounded to the nearest integer, ties to even.\<close>

definition round_shift :: "int \<Rightarrow> nat \<Rightarrow> int" where
  "round_shift a k =
     (let q = a div 2 ^ k; r = a mod 2 ^ k
      in if 2 * r < 2 ^ k \<or> (2 * r = 2 ^ k \<and> even q) then q else q + 1)"

text \<open>
  The binary64 number nearest to \<open>m * 2 ^ e\<close>: 53 significant bits, no exponent below
  \<open>-1074\<close>, overflow to an infinity from \<open>2 ^ 1024\<close> on.
\<close>

definition round_double :: "int \<Rightarrow> int \<Rightarrow> pyfloat" where
  "round_double m e =
     (let a = \<bar>m\<bar>;
          sh = nat (max (bitlen a - 53) (- 1074 - e));
          q = round_shift a sh;
          e' = e + int sh
      in if q = 0 then Finite 0 0
         else if bitlen q + e' > 1024 then (if m < 0 then NegInf else PosInf)
         else Finite (if m < 0 then - q else q) e')"

text \<open>
  \<open>x * len(counter)\<close> for a float \<open>x\<close>: the length is converted to a float and the
  exact product is rounded.  (A length is below \<open>2 ^ 63\<close>, so its conversion is finite.)
\<close>

definition float_mul_len :: "pyfloat \<Rightarrow> nat \<Rightarrow> pyfloat" where
  "float_mul_len x n =
     (case x of
        Finite m e \<Rightarrow>
          (case round_double (int n) 0 of
             Finite m' e' \<Rightarrow> round_double (m * m') (e + e')
           | y \<Rightarrow> (if m = 0 then NaN else if m < 0 then NegInf else PosInf))
      | PosInf \<Rightarrow> (if n = 0 then NaN else PosInf)
      | NegInf \<Rightarrow> (if n = 0 then NaN else NegInf)
      | NaN \<Rightarrow> NaN)"

text \<open>\<open>threshold > 0\<close>.\<close>

fun py_gt_zero :: "pynum \<Rightarrow> bool" where
  "py_gt_zero (PyInt i) = (0 < i)"
| "py_gt_zero (PyFloat (Finite m e)) = (0 < m)"
| "py_gt_zero (PyFloat PosInf) = True"
| "py_gt_zero (PyFloat NegInf) = False"
| "py_gt_zero (PyFloat NaN) = False"

text \<open>\<open>threshold * len(counter)\<close>.\<close>

fun py_mul_len :: "pynum \<Rightarrow> nat \<Rightarrow> pynum" where
  "py_mul_len (PyInt i) n = PyInt (i * int n)"
| "py_mul_len (PyFloat x) n = PyFloat (float_mul_len x n)"

text \<open>\<open>len(deletions) < x\<close>: Python compares an int with a float exactly.\<close>

fun py_len_lt :: "nat \<Rightarrow> pynum \<Rightarrow> bool" where
  "py_len_lt k (PyInt j) = (int k < j)"
| "py_len_lt k (PyFloat (Finite m e)) =
     (if 0 \<le> e then int k < m * 2 ^ nat e else int k * 2 ^ nat (- e) < m)"
| "py_len_lt k (PyFloat PosInf) = True"
| "py_len_lt k (PyFloat NegInf) = False"
| "py_len_lt k (PyFloat NaN) = False"

text \<open>
  The float literal \<open>0.8\<close> is \<open>0x1.999999999999ap-1\<close>, that is
  \<open>0x1999999999999a * 2 ^ -53\<close>, the binary64 number nearest to \<open>4 / 5\<close>.
\<close>

definition float_0_8 :: pyfloat where
  "float_0_8 = Finite 7205759403792794 (- 53)"

text \<open>The number a finite float stands for.\<close>

definition float_value :: "int \<Rightarrow> int \<Rightarrow> rat" where
  "float_value m e = of_int m * 2 powi e"

section \<open>Token sampler\<close>

text \<open>
  Characters are code points below 256 (Latin-1).  \<open>c.isupper()\<close> for a one-character
  string: the uppercase letters \<open>A\<close>-\<open>Z\<close>, and \<open>U+00C0\<close>-\<open>U+00DE\<close> without the
  multiplication sign \<open>U+00D7\<close>.
\<close>

definition isupper :: "char \<Rightarrow> bool" where
  "isupper c =
     (let n = (of_char c :: nat)
      in (65 \<le> n \<and> n \<le> 90) \<or> (192 \<le> n \<and> n \<le> 222 \<and> n \<noteq> 215))"

text \<open>
  A \<open>Counter\<close> is a dict from token to count, in insertion order.
  \<open>counter_incr\<close> is \<open>counter[tok] = counter.get(tok, 0) + 1\<close>.
\<close>

type_synonym counter = "(string \<times> nat) list"

fun counter_incr :: "string \<Rightarrow> counter \<Rightarrow> counter" where
  "counter_incr tok [] = [(tok, 1)]"
| "counter_incr tok ((k, c) # kcs) =
     (if k = tok then (k, c + 1) # kcs else (k, c) # counter_incr tok kcs)"

definition Counter :: "string list \<Rightarrow> counter" where
  "Counter tokens = foldl (\<lambda>c tok. counter_incr tok c) [] tokens"

text \<open>\<open>[token for token in counter if token[0].isupper()]\<close>; \<open>token[0]\<close> raises on \<open>""\<close>.\<close>

fun deletions_of :: "string list \<Rightarrow> error + string list" where
  "deletions_of [] = Inr []"
| "deletions_of (token # rest) =
     (case token of
        [] \<Rightarrow> Inl IndexError
      | c # _ \<Rightarrow>
          (case deletions_of rest of
             Inl e \<Rightarrow> Inl e
           | Inr ds \<Rightarrow> Inr (if isupper c then token # ds else ds)))"

text \<open>\<open>del counter[token]\<close>, and the loop over \<open>deletions\<close>.\<close>

definition counter_del :: "string \<Rightarrow> counter \<Rightarrow> error + counter" where
  "counter_del token c =
     (if token \<in> fst ` set c then Inr (filter (\<lambda>p. fst p \<noteq> token) c) else Inl KeyError)"

fun del_all :: "string list \<Rightarrow> counter \<Rightarrow> error + counter" where
  "del_all [] c = Inr c"
| "del_all (token # rest) c =
     (case counter_del token c of Inl e \<Rightarrow> Inl e | Inr c' \<Rightarrow> del_all rest c')"

text \<open>
  \<open>counter.most_common(n)\<close> is \<open>heapq.nlargest(n, items, key=count)\<close>, which is
  \<open>sorted(items, key=count, reverse=True)[:n]\<close>: a stable sort by descending count.
  For \<open>n \<le> 0\<close> it is empty.
\<close>

definition most_common :: "int \<Rightarrow> counter \<Rightarrow> counter" where
  "most_common n c = take (nat n) (sort_key (\<lambda>p. - int (snd p)) c)"

definition sample_tokens :: "int \<Rightarrow> pynum \<Rightarrow> string list \<Rightarrow> error + string list" where
  "sample_tokens sample_size capitalized_threshold tokens =
     (let counter = Counter tokens
      in case (if py_gt_zero capitalized_threshold
               then (case deletions_of (map fst counter) of
                       Inl e \<Rightarrow> Inl e
                     | Inr deletions \<Rightarrow>
                         if py_len_lt (length deletions)
                              (py_mul_len capitalized_threshold (length counter))
                         then del_all deletions counter
                         else Inr counter)
               else Inr counter) of
           Inl e \<Rightarrow> Inl e
         | Inr counter' \<Rightarrow> Inr (map fst (most_common sample_size counter')))"

text \<open>
  A sampler object: its tokenizer's \<open>split_text\<close> (the tokenizer module is a collaborator,
  taken as a function from a text to its tokens) and the \<open>sample_tokens\<close> its class
  defines.  \<open>BaseTokenSampler.sample_text\<close> calls \<open>self.sample_tokens\<close>, so the subclass's
  method runs.
\<close>

record sampler =
  tokenizer :: "string \<Rightarrow> string list"
  sample_tokens_method :: "string list \<Rightarrow> error + string list"

definition sample_text :: "sampler \<Rightarrow> string \<Rightarrow> error + string list" where
  "sample_text self text = sample_tokens_method self (tokenizer self text)"

definition BaseTokenSampler :: "(string \<Rightarrow> string list) \<Rightarrow> sampler" where
  "BaseTokenSampler tok =
     \<lparr>tokenizer = tok, sample_tokens_method = (\<lambda>tokens. Inl NotImplementedError)\<rparr>"

definition MostCommonTokenSampler :: "(string \<Rightarrow> string list) \<Rightarrow> int \<Rightarrow> pynum \<Rightarrow> sampler" where
  "MostCommonTokenSampler tok sample_size capitalized_threshold =
     \<lparr>tokenizer = tok,
      sample_tokens_method = sample_tokens sample_size capitalized_threshold\<rparr>"

definition RelaxedMostCommonTokenSampler ::
    "(string \<Rightarrow> string list) \<Rightarrow> int \<Rightarrow> pynum \<Rightarrow> sampler" where
  "RelaxedMostCommonTokenSampler tok sample_size capitalized_threshold =
     MostCommonTokenSampler tok sample_size capitalized_threshold"

subsection \<open>What a sample is\<close>

text \<open>The distinct elements of a sequence, in the order of their first occurrence.\<close>

fun first_occurrences :: "'a list \<Rightarrow> 'a list" where
  "first_occurrences [] = []"
| "first_occurrences (x # xs) = x # filter (\<lambda>y. y \<noteq> x) (first_occurrences xs)"

text \<open>The position at which an element first appears.\<close>

definition first_index :: "'a list \<Rightarrow> 'a \<Rightarrow> nat" where
  "first_index xs x = length (takeWhile (\<lambda>y. y \<noteq> x) xs)"

text \<open>A token that begins with an uppercase character.\<close>

fun starts_upper :: "string \<Rightarrow> bool" where
  "starts_upper [] = False"
| "starts_upper (c # _) = isupper c"

text \<open>
  The capitalized distinct tokens are dropped when the threshold is positive and their
  number is below the threshold times the number of distinct tokens.
\<close>

definition capitalized_removed :: "pynum \<Rightarrow> string list \<Rightarrow> bool" where
  "capitalized_removed t tokens \<longleftrightarrow>
     py_gt_zero t \<and>
     py_len_lt (length (filter starts_upper (first_occurrences tokens)))
       (py_mul_len t (length (first_occurrences tokens)))"

definition kept_tokens :: "pynum \<Rightarrow> string list \<Rightarrow> string list" where
  "kept_tokens t tokens =
     (if capitalized_removed t tokens
      then filter (\<lambda>k. \<not> starts_upper k) (first_occurrences tokens)
      else first_occurrences tokens)"

text \<open>Candidates ranked by descending frequency in the input, by a stable sort.\<close>

definition rank_tokens :: "string list \<Rightarrow> string list \<Rightarrow> string list" where
  "rank_tokens tokens ks = sort_key (\<lambda>k. - int (count_list tokens k)) ks"

text \<open>\<open>a\<close> ranks before \<open>b\<close>: more frequent, or as frequent and seen first.\<close>

definition ranked_before :: "string list \<Rightarrow> string \<Rightarrow> string \<Rightarrow> bool" where
  "ranked_before tokens a b \<longleftrightarrow>
     count_list tokens b < count_list tokens a \<or>
     (count_list tokens a = count_list tokens b \<and> first_index tokens a < first_index tokens b)"

section \<open>Dictionary loader and factory\<close>

text \<open>
  The package data directory, as the loader sees it: at a path there is no file, a file
  that does not decompress and unpickle, or a file that unpickles to an object.
\<close>

datatype resource = Missing | Malformed | Pickled pyval

text \<open>Records sent to \<open>LOGGER\<close>: \<open>error("language not supported: %s")\<close>, \<open>debug("loading %s")\<close>.\<close>

datatype log_record = LogError string | LogDebug string

text \<open>
  The object \<open>functools.lru_cache(maxsize)\<close> wraps around the loader: the cached results
  from the least to the most recently used, the statistics of \<open>cache_info()\<close>, and the
  \<open>full\<close> flag of the bounded variant.
\<close>

record lru_cache =
  maxsize :: "int option"
  entries :: "(string \<times> dictionary) list"
  hits :: nat
  misses :: nat
  full :: bool

text \<open>
  A factory (\<open>_data\<close> and the wrapped loader), with what it has done to its surroundings:
  the files it has opened and the records it has logged, oldest first.
\<close>

record state =
  data :: "(string \<times> dictionary) list"
  cache :: lru_cache
  opened :: "string list"
  logged :: "log_record list"

definition control_lang :: "pyval \<Rightarrow> error + string list" where
  "control_lang lang =
     (let lang' = (case lang of PStr x \<Rightarrow> PTuple [x] | _ \<Rightarrow> lang)
      in case lang' of PTuple xs \<Rightarrow> Inr xs | _ \<Rightarrow> Inl TypeError)"

text \<open>\<open>data/{langcode}.plzma\<close>, below the package directory.\<close>

definition dictionary_path :: "string \<Rightarrow> string" where
  "dictionary_path langcode = ''data/'' @ langcode @ ''.plzma''"

definition load_dictionary_from_disk ::
    "(string \<Rightarrow> resource) \<Rightarrow> string \<Rightarrow> state \<Rightarrow> (error + dictionary) \<times> state" where
  "load_dictionary_from_disk disk langcode s =
     (let filepath = dictionary_path langcode;
          s' = s\<lparr>opened := opened s @ [filepath]\<rparr>
      in case disk filepath of
           Missing \<Rightarrow> (Inl FileNotFoundError, s')
         | Malformed \<Rightarrow> (Inl CorruptDataError, s')
         | Pickled pickled_dict \<Rightarrow>
             (case pickled_dict of
                PDict d \<Rightarrow> (Inr d, s')
              | _ \<Rightarrow> (Inl AssertionError, s')))"

text \<open>\<open>lru_cache(maxsize=cache_max_size)\<close>: a negative size is \<open>0\<close>, \<open>None\<close> is unbounded.\<close>

definition new_lru_cache :: "int option \<Rightarrow> lru_cache" where
  "new_lru_cache cache_max_size =
     \<lparr>maxsize = (case cache_max_size of
                    None \<Rightarrow> None
                  | Some n \<Rightarrow> Some (if n < 0 then 0 else n)),
      entries = [], hits = 0, misses = 0, full = False\<rparr>"

text \<open>
  The bounded wrapper after a miss and a successful call: nothing if the key is there,
  the oldest entry replaced if the cache is full, a new most recent entry otherwise.
\<close>

definition lru_store :: "int \<Rightarrow> string \<Rightarrow> dictionary \<Rightarrow> lru_cache \<Rightarrow> lru_cache" where
  "lru_store n key result c =
     (if key \<in> fst ` set (entries c) then c
      else if full c then c\<lparr>entries := tl (entries c) @ [(key, result)]\<rparr>
      else (let es = entries c @ [(key, result)]
            in c\<lparr>entries := es, full := (n \<le> int (length es))\<rparr>))"

text \<open>\<open>self._load_dictionary_from_disk(lang)\<close>: the three wrappers of \<open>lru_cache\<close>.\<close>

definition cached_load ::
    "(string \<Rightarrow> resource) \<Rightarrow> string \<Rightarrow> state \<Rightarrow> (error + dictionary) \<times> state" where
  "cached_load disk key s =
     (let c = cache s
      in case maxsize c of
           None \<Rightarrow>
             (case map_of (entries c) key of
                Some result \<Rightarrow> (Inr result, s\<lparr>cache := c\<lparr>hits := hits c + 1\<rparr>\<rparr>)
              | None \<Rightarrow>
                  (case load_dictionary_from_disk disk key
                          (s\<lparr>cache := c\<lparr>misses := misses c + 1\<rparr>\<rparr>) of
                     (Inl e, s1) \<Rightarrow> (Inl e, s1)
                   | (Inr result, s1) \<Rightarrow>
                       (Inr result,
                        s1\<lparr>cache := (cache s1)
                              \<lparr>entries := AList.update key result (entries (cache s1))\<rparr>\<rparr>)))
         | Some n \<Rightarrow>
             if n = 0
             then load_dictionary_from_disk disk key (s\<lparr>cache := c\<lparr>misses := misses c + 1\<rparr>\<rparr>)
             else
               (case map_of (entries c) key of
                  Some result \<Rightarrow>
                    (Inr result,
                     s\<lparr>cache := c\<lparr>entries :=
                                     filter (\<lambda>p. fst p \<noteq> key) (entries c) @ [(key, result)],
                                   hits := hits c + 1\<rparr>\<rparr>)
                | None \<Rightarrow>
                    (case load_dictionary_from_disk disk key
                            (s\<lparr>cache := c\<lparr>misses := misses c + 1\<rparr>\<rparr>) of
                       (Inl e, s1) \<Rightarrow> (Inl e, s1)
                     | (Inr result, s1) \<Rightarrow>
                         (Inr result, s1\<lparr>cache := lru_store n key result (cache s1)\<rparr>))))"

text \<open>\<open>DictionaryFactory(cache_max_size)\<close>, in a process that has done nothing yet.\<close>

definition DictionaryFactory :: "int option \<Rightarrow> state" where
  "DictionaryFactory cache_max_size =
     \<lparr>data = [], cache = new_lru_cache cache_max_size, opened = [], logged = []\<rparr>"

text \<open>The default of \<open>cache_max_size\<close>.\<close>

definition default_cache_max_size :: "int option" where
  "default_cache_max_size = Some 8"

text \<open>
  The loop over the requested languages; \<open>LANGLIST\<close> is a constant of another module,
  taken as a parameter.  An exception of the loader leaves the loop.
\<close>

fun load_langs ::
    "string list \<Rightarrow> (string \<Rightarrow> resource) \<Rightarrow> string list \<Rightarrow> state \<Rightarrow> error option \<times> state" where
  "load_langs LANGLIST disk [] s = (None, s)"
| "load_langs LANGLIST disk (lang # rest) s =
     (if lang \<notin> set LANGLIST
      then load_langs LANGLIST disk rest (s\<lparr>logged := logged s @ [LogError lang]\<rparr>)
      else (case cached_load disk lang (s\<lparr>logged := logged s @ [LogDebug lang]\<rparr>) of
              (Inl e, s1) \<Rightarrow> (Some e, s1)
            | (Inr d, s1) \<Rightarrow>
                load_langs LANGLIST disk rest (s1\<lparr>data := AList.update lang d (data s1)\<rparr>)))"

definition get_dictionaries ::
    "string list \<Rightarrow> (string \<Rightarrow> resource) \<Rightarrow> pyval \<Rightarrow> state
      \<Rightarrow> (error + (string \<times> dictionary) list) \<times> state" where
  "get_dictionaries LANGLIST disk langs s =
     (case control_lang langs of
        Inl e \<Rightarrow> (Inl e, s)
      | Inr langs \<Rightarrow>
          if data s \<noteq> [] \<and> py_eq (PTuple (sort (map fst (data s)))) (PList (sort langs))
          then (Inr (data s), s)
          else
            (let s1 = s\<lparr>data := []\<rparr>;
                 s2 = foldl (\<lambda>s lang. s\<lparr>data := filter (\<lambda>p. fst p \<noteq> lang) (data s)\<rparr>) s1
                        (filter (\<lambda>lang. lang \<notin> set langs) (map fst (data s1)))
             in case load_langs LANGLIST disk
                       (filter (\<lambda>lang. lang \<notin> fst ` set (data s2)) langs) s2 of
                  (Some e, s3) \<Rightarrow> (Inl e, s3)
                | (None, s3) \<Rightarrow> (Inr (data s3), s3)))"

text \<open>A sequence of calls on one factory; a caller may go on after a failed call.\<close>

fun run_calls ::
    "string list \<Rightarrow> (string \<Rightarrow> resource) \<Rightarrow> pyval list \<Rightarrow> state \<Rightarrow> state" where
  "run_calls LANGLIST disk [] s = s"
| "run_calls LANGLIST disk (langs # rest) s =
     run_calls LANGLIST disk rest (snd (get_dictionaries LANGLIST disk langs s))"

subsection \<open>Notions used to state the properties\<close>

text \<open>The resource of a language unpickles to a dict.\<close>

definition loadable :: "(string \<Rightarrow> resource) \<Rightarrow> string \<Rightarrow> bool" where
  "loadable disk lang \<longleftrightarrow> (\<exists>d. disk (dictionary_path lang) = Pickled (PDict d))"

text \<open>
  A data directory for examples: three dictionaries, a file that does not decompress,
  nothing else.
\<close>

definition example_disk :: "string \<Rightarrow> resource" where
  "example_disk path =
     (if path = ''data/en.plzma'' then Pickled (PDict [(''dogs'', ''dog'')])
      else if path = ''data/de.plzma'' then Pickled (PDict [(''Hunde'', ''Hund'')])
      else if path = ''data/fr.plzma'' then Pickled (PDict [(''chiens'', ''chien'')])
      else if path = ''data/it.plzma'' then Malformed
      else Missing)"

text \<open>The languages the loop has asked the wrapped loader for, oldest first.\<close>

fun requested :: "log_record list \<Rightarrow> string list" where
  "requested [] = []"
| "requested (LogDebug lang # rs) = lang # requested rs"
| "requested (LogError lang # rs) = requested rs"

text \<open>
  The \<open>n\<close> most recently used keys of a sequence of accesses, the least recently used
  first (\<open>remdups\<close> keeps the last occurrence of each element).
\<close>

definition most_recent :: "nat \<Rightarrow> string list \<Rightarrow> string list" where
  "most_recent n acc = drop (length (remdups acc) - n) (remdups acc)"

text \<open>What holds of a bounded cache of size \<open>n\<close> between calls.\<close>

definition lru_inv :: "int \<Rightarrow> lru_cache \<Rightarrow> bool" where
  "lru_inv n c \<longleftrightarrow>
     maxsize c = Some n \<and> 0 \<le> n \<and> distinct (map fst (entries c)) \<and>
     int (length (entries c)) \<le> n \<and>
     (full c \<longleftrightarrow> 0 < n \<and> n \<le> int (length (entries c)))"

text \<open>The keys of the cache after a call of the wrapped loader that returns.\<close>

definition keys_after :: "int \<Rightarrow> bool \<Rightarrow> string \<Rightarrow> string list \<Rightarrow> string list" where
  "keys_after n f k ks =
     (if n = 0 then ks
      else if k \<in> set ks then filter (\<lambda>y. y \<noteq> k) ks @ [k]
      else if f then tl ks @ [k]
      else ks @ [k])"

definition lru_state :: "int \<Rightarrow> string list \<Rightarrow> state \<Rightarrow> bool" where
  "lru_state n LL s \<longleftrightarrow>
     lru_inv n (cache s) \<and> fst ` set (entries (cache s)) \<subseteq> set LL"

definition lru_trace :: "int \<Rightarrow> state \<Rightarrow> bool" where
  "lru_trace n s \<longleftrightarrow>
     map fst (entries (cache s)) = most_recent (nat n) (requested (logged s))"

section \<open>Properties of the token sampler\<close>

subsection \<open>The counter\<close>

lemma set_first_occurrences [simp]: "set (first_occurrences xs) = set xs"
  by (induction xs) auto

lemma distinct_first_occurrences [simp]: "distinct (first_occurrences xs)"
  by (induction xs) auto

lemma first_occurrences_snoc:
  "first_occurrences (xs @ [x]) =
     (if x \<in> set xs then first_occurrences xs else first_occurrences xs @ [x])"
  by (induction xs) auto

lemma keys_counter_incr:
  "map fst (counter_incr t c) = (if t \<in> fst ` set c then map fst c else map fst c @ [t])"
  by (induction t c rule: counter_incr.induct) auto

lemma map_of_counter_incr:
  "map_of (counter_incr t c) =
     (map_of c)(t \<mapsto> (case map_of c t of None \<Rightarrow> 1 | Some k \<Rightarrow> k + 1))"
  by (induction t c rule: counter_incr.induct) (auto simp: fun_eq_iff)

lemma Counter_snoc: "Counter (toks @ [t]) = counter_incr t (Counter toks)"
  by (simp add: Counter_def)

lemma keys_Counter: "map fst (Counter toks) = first_occurrences toks"
proof (induction toks rule: rev_induct)
  case Nil
  show ?case by (simp add: Counter_def)
next
  case (snoc t toks)
  have "fst ` set (Counter toks) = set toks"
    using snoc.IH by (metis set_first_occurrences set_map)
  then show ?case
    by (simp add: Counter_snoc keys_counter_incr first_occurrences_snoc snoc.IH)
qed

lemma map_of_Counter:
  "map_of (Counter toks) k = (if k \<in> set toks then Some (count_list toks k) else None)"
proof (induction toks arbitrary: k rule: rev_induct)
  case Nil
  show ?case by (simp add: Counter_def)
next
  case (snoc t toks)
  show ?case
    by (simp add: Counter_snoc map_of_counter_incr snoc.IH split: option.splits)
qed

lemma alist_by_keys:
  "distinct (map fst xs) \<Longrightarrow> xs = map (\<lambda>k. (k, the (map_of xs k))) (map fst xs)"
proof (induction xs)
  case Nil
  show ?case by simp
next
  case (Cons p xs)
  have d: "distinct (map fst xs)" and n: "fst p \<notin> fst ` set xs"
    using Cons.prems by auto
  have "map (\<lambda>k. (k, the (map_of (p # xs) k))) (map fst xs) =
        map (\<lambda>k. (k, the (map_of xs k))) (map fst xs)"
  proof (rule map_cong)
    fix k assume "k \<in> set (map fst xs)"
    then have "k \<in> fst ` set xs" by simp
    then have "k \<noteq> fst p" using n by blast
    then show "(k, the (map_of (p # xs) k)) = (k, the (map_of xs k))"
      by (cases p) simp
  qed simp
  also have "\<dots> = xs"
    using Cons.IH [OF d] by simp
  finally show ?case by simp
qed

lemma Counter_eq:
  "Counter toks = map (\<lambda>k. (k, count_list toks k)) (first_occurrences toks)"
proof -
  have d: "distinct (map fst (Counter toks))"
    by (simp add: keys_Counter)
  have "Counter toks = map (\<lambda>k. (k, the (map_of (Counter toks) k))) (first_occurrences toks)"
    using alist_by_keys [OF d] by (simp add: keys_Counter)
  also have "\<dots> = map (\<lambda>k. (k, count_list toks k)) (first_occurrences toks)"
    by (rule map_cong) (simp_all add: map_of_Counter)
  finally show ?thesis .
qed

lemma deletions_of_nonempty:
  "[] \<notin> set ks \<Longrightarrow> deletions_of ks = Inr (filter starts_upper ks)"
  by (induction ks) (auto split: list.splits)

lemma deletions_of_empty:
  "[] \<in> set ks \<Longrightarrow> deletions_of ks = Inl IndexError"
  by (induction ks) (auto split: list.splits sum.splits)

lemma del_all_filter:
  "set ds \<subseteq> fst ` set c \<Longrightarrow> distinct ds \<Longrightarrow>
     del_all ds c = Inr (filter (\<lambda>p. fst p \<notin> set ds) c)"
proof (induction ds arbitrary: c)
  case Nil
  then show ?case by simp
next
  case (Cons d ds)
  have "set ds \<subseteq> fst ` set (filter (\<lambda>p. fst p \<noteq> d) c)"
  proof
    fix x assume x: "x \<in> set ds"
    then obtain p where "p \<in> set c" "fst p = x" using Cons.prems by auto
    moreover have "x \<noteq> d" using x Cons.prems by auto
    ultimately show "x \<in> fst ` set (filter (\<lambda>p. fst p \<noteq> d) c)" by force
  qed
  then have "del_all ds (filter (\<lambda>p. fst p \<noteq> d) c) =
      Inr (filter (\<lambda>p. fst p \<notin> set ds) (filter (\<lambda>p. fst p \<noteq> d) c))"
    using Cons.IH Cons.prems by simp
  moreover have "d \<in> fst ` set c" using Cons.prems by simp
  ultimately show ?case
    by (simp add: counter_del_def conj_commute)
qed

lemma insort_key_map:
  "insort_key f (g x) (map g xs) = map g (insort_key (\<lambda>y. f (g y)) x xs)"
  by (induction xs) auto

lemma sort_key_map:
  "sort_key f (map g xs) = map g (sort_key (\<lambda>y. f (g y)) xs)"
  by (induction xs) (auto simp: insort_key_map)

lemma keys_most_common:
  "map fst (most_common n (map (\<lambda>k. (k, count_list toks k)) ks)) = take (nat n) (rank_tokens toks ks)"
  by (simp add: most_common_def rank_tokens_def sort_key_map take_map comp_def)

subsection \<open>The sample as a ranking\<close>

lemma filter_counter_keys:
  "filter (\<lambda>p. P (fst p)) (map (\<lambda>k. (k, g k)) ks) = map (\<lambda>k. (k, g k)) (filter P ks)"
  by (induction ks) auto

lemma sample_tokens_eq:
  "sample_tokens n t toks =
     (if py_gt_zero t \<and> [] \<in> set toks then Inl IndexError
      else Inr (take (nat n) (rank_tokens toks (kept_tokens t toks))))"
proof (cases "py_gt_zero t")
  case False
  then show ?thesis
    by (simp add: sample_tokens_def kept_tokens_def capitalized_removed_def
        Counter_eq keys_most_common)
next
  case pos: True
  show ?thesis
  proof (cases "[] \<in> set toks")
    case True
    then have "deletions_of (map fst (Counter toks)) = Inl IndexError"
      by (simp add: keys_Counter deletions_of_empty)
    then show ?thesis using pos True by (simp add: sample_tokens_def)
  next
    case False
    let ?ks = "first_occurrences toks"
    let ?ds = "filter starts_upper ?ks"
    have del: "deletions_of (map fst (Counter toks)) = Inr ?ds"
      using False by (simp add: keys_Counter deletions_of_nonempty)
    have sub: "set ?ds \<subseteq> fst ` set (Counter toks)"
      by (auto simp: Counter_eq image_image)
    have "del_all ?ds (Counter toks) = Inr (filter (\<lambda>p. fst p \<notin> set ?ds) (Counter toks))"
      by (rule del_all_filter [OF sub]) simp
    also have "filter (\<lambda>p. fst p \<notin> set ?ds) (Counter toks) =
        map (\<lambda>k. (k, count_list toks k)) (filter (\<lambda>k. k \<notin> set ?ds) ?ks)"
      unfolding Counter_eq by (rule filter_counter_keys)
    also have "filter (\<lambda>k. k \<notin> set ?ds) ?ks = filter (\<lambda>k. \<not> starts_upper k) ?ks"
      by (rule filter_cong) auto
    finally have rm: "del_all ?ds (Counter toks) =
        Inr (map (\<lambda>k. (k, count_list toks k)) (filter (\<lambda>k. \<not> starts_upper k) ?ks))" .
    have len: "length (Counter toks) = length ?ks"
      by (simp add: Counter_eq)
    show ?thesis
    proof (cases "capitalized_removed t toks")
      case True
      then have "py_len_lt (length ?ds) (py_mul_len t (length (Counter toks)))"
        by (simp add: capitalized_removed_def len)
      then show ?thesis using pos False True
        by (simp add: sample_tokens_def del rm keys_most_common kept_tokens_def)
    next
      case nr: False
      then have "\<not> py_len_lt (length ?ds) (py_mul_len t (length (Counter toks)))"
        using pos by (simp add: capitalized_removed_def len)
      then show ?thesis using pos False nr
        by (simp add: sample_tokens_def del kept_tokens_def)
          (simp add: Counter_eq keys_most_common)
    qed
  qed
qed

lemma sorted_wrt_insort_key_lex:
  fixes f :: "'a \<Rightarrow> 'k::linorder"
  assumes "sorted_wrt (\<lambda>a b. f a < f b \<or> (f a = f b \<and> R a b)) ys"
    and "\<forall>y\<in>set ys. R x y"
  shows "sorted_wrt (\<lambda>a b. f a < f b \<or> (f a = f b \<and> R a b)) (insort_key f x ys)"
  using assms
proof (induction ys)
  case Nil
  then show ?case by simp
next
  case (Cons y ys)
  show ?case
  proof (cases "f x \<le> f y")
    case True
    have "f x < f z \<or> (f x = f z \<and> R x z)" if "z \<in> set (y # ys)" for z
    proof -
      have "f y \<le> f z" using that Cons.prems(1) by auto
      then have "f x \<le> f z" using True by simp
      moreover have "R x z" using that Cons.prems(2) by auto
      ultimately show ?thesis by auto
    qed
    then show ?thesis using True Cons.prems(1) by simp
  next
    case False
    then have "f y < f x" by simp
    moreover have "sorted_wrt (\<lambda>a b. f a < f b \<or> (f a = f b \<and> R a b)) (insort_key f x ys)"
      using Cons.IH Cons.prems by simp
    ultimately show ?thesis using False Cons.prems(1)
      by (auto simp: set_insort_key)
  qed
qed

lemma sorted_wrt_sort_key_lex:
  fixes f :: "'a \<Rightarrow> 'k::linorder"
  shows "sorted_wrt R xs \<Longrightarrow>
    sorted_wrt (\<lambda>a b. f a < f b \<or> (f a = f b \<and> R a b)) (sort_key f xs)"
proof (induction xs)
  case Nil
  then show ?case by simp
next
  case (Cons x xs)
  have "sorted_wrt (\<lambda>a b. f a < f b \<or> (f a = f b \<and> R a b)) (sort_key f xs)"
    using Cons by simp
  moreover have "\<forall>y\<in>set (sort_key f xs). R x y"
    using Cons.prems by simp
  ultimately show ?case
    using sorted_wrt_insort_key_lex [of f R "sort_key f xs" x] by simp
qed

lemma first_index_Cons:
  "first_index (x # xs) y = (if y = x then 0 else Suc (first_index xs y))"
  by (simp add: first_index_def)

lemma sorted_wrt_first_index:
  "sorted_wrt (\<lambda>a b. first_index xs a < first_index xs b) (first_occurrences xs)"
proof (induction xs)
  case Nil
  show ?case by simp
next
  case (Cons x xs)
  have "sorted_wrt (\<lambda>a b. first_index xs a < first_index xs b)
          (filter (\<lambda>y. y \<noteq> x) (first_occurrences xs))"
    using Cons.IH by (rule sorted_wrt_filter)
  then have "sorted_wrt (\<lambda>a b. first_index (x # xs) a < first_index (x # xs) b)
          (filter (\<lambda>y. y \<noteq> x) (first_occurrences xs))"
    by (rule sorted_wrt_mono_rel [rotated]) (simp add: first_index_Cons)
  then show ?case
    by (simp add: first_index_Cons)
qed

lemma sorted_wrt_kept_tokens:
  "sorted_wrt (\<lambda>a b. first_index toks a < first_index toks b) (kept_tokens t toks)"
  by (simp add: kept_tokens_def sorted_wrt_first_index sorted_wrt_filter)

lemma sorted_wrt_rank_tokens:
  assumes "sorted_wrt (\<lambda>a b. first_index toks a < first_index toks b) ks"
  shows "sorted_wrt (ranked_before toks) (rank_tokens toks ks)"
proof -
  have "sorted_wrt (\<lambda>a b. - int (count_list toks a) < - int (count_list toks b) \<or>
      (- int (count_list toks a) = - int (count_list toks b) \<and>
       first_index toks a < first_index toks b)) (rank_tokens toks ks)"
    unfolding rank_tokens_def using assms by (rule sorted_wrt_sort_key_lex)
  then show ?thesis
    by (rule sorted_wrt_mono_rel [rotated]) (auto simp: ranked_before_def)
qed

lemma length_rank_tokens [simp]: "length (rank_tokens toks ks) = length ks"
  by (simp add: rank_tokens_def)

lemma set_rank_tokens [simp]: "set (rank_tokens toks ks) = set ks"
  by (simp add: rank_tokens_def)

lemma distinct_rank_tokens [simp]: "distinct (rank_tokens toks ks) = distinct ks"
  by (simp add: rank_tokens_def)

lemma set_kept_tokens: "set (kept_tokens t toks) \<subseteq> set toks"
  by (auto simp: kept_tokens_def)

lemma distinct_kept_tokens [simp]: "distinct (kept_tokens t toks)"
  by (simp add: kept_tokens_def)

subsection \<open>The example of the specification\<close>

lemma float_0_8_nearest: "\<bar>5 * 7205759403792794 - 4 * 2 ^ 53\<bar> * 2 < (5::int)"
  by simp

lemma example_threshold: "py_len_lt 2 (py_mul_len (PyFloat float_0_8) 4)"
  by code_simp

lemma example_removed:
  "capitalized_removed (PyFloat float_0_8) [''Apple'', ''apple'', ''apple'', ''Banana'', ''cat'']"
proof -
  have ks: "first_occurrences [''Apple'', ''apple'', ''apple'', ''Banana'', ''cat''] =
      [''Apple'', ''apple'', ''Banana'', ''cat'']"
    by simp
  have caps: "filter starts_upper [''Apple'', ''apple'', ''Banana'', ''cat''] = [''Apple'', ''Banana'']"
    by (simp add: isupper_def)
  have l2: "length [''Apple'', ''Banana''] = 2" and
    l4: "length [''Apple'', ''apple'', ''Banana'', ''cat''] = 4"
    by simp_all
  have "py_gt_zero (PyFloat float_0_8)"
    by (simp add: float_0_8_def)
  then show ?thesis
    unfolding capitalized_removed_def ks caps l2 l4 using example_threshold by simp
qed

lemma example_sample:
  "sample_tokens 10 (PyFloat float_0_8) [''Apple'', ''apple'', ''apple'', ''Banana'', ''cat''] =
     Inr [''apple'', ''cat'']"
proof -
  have "kept_tokens (PyFloat float_0_8) [''Apple'', ''apple'', ''apple'', ''Banana'', ''cat''] =
      [''apple'', ''cat'']"
    using example_removed by (simp add: kept_tokens_def isupper_def)
  moreover have "rank_tokens [''Apple'', ''apple'', ''apple'', ''Banana'', ''cat'']
      [''apple'', ''cat''] = [''apple'', ''cat'']"
    by (simp add: rank_tokens_def)
  ultimately show ?thesis
    by (simp add: sample_tokens_eq)
qed


lemma sample_tokens_removed_iff:
  assumes "[] \<notin> set tokens" and "sample_tokens n t tokens = Inr r"
    and "k \<in> set tokens" and "starts_upper k"
    and "length (first_occurrences tokens) \<le> nat n"
  shows "k \<notin> set r \<longleftrightarrow> capitalized_removed t tokens"
proof -
  have "length (kept_tokens t tokens) \<le> nat n"
    using assms(5)
    by (simp add: kept_tokens_def) (meson le_trans length_filter_le)
  then have "r = rank_tokens tokens (kept_tokens t tokens)"
    using assms(1,2) by (simp add: sample_tokens_eq)
  then show ?thesis
    using assms(3,4) by (auto simp: kept_tokens_def)
qed

subsection \<open>The threshold condition in arithmetic\<close>

lemma py_len_lt_float_value:
  "py_len_lt k (PyFloat (Finite m e)) \<longleftrightarrow> of_nat k < float_value m e"
proof (cases "0 \<le> e")
  case True
  have "(of_nat k :: rat) < of_int m * 2 ^ nat e \<longleftrightarrow> (of_int (int k) :: rat) < of_int (m * 2 ^ nat e)"
    by simp
  also have "\<dots> \<longleftrightarrow> int k < m * 2 ^ nat e"
    by (rule of_int_less_iff)
  finally show ?thesis using True by (simp add: float_value_def power_int_def)
next
  case False
  have "(of_nat k :: rat) < of_int m / 2 ^ nat (- e) \<longleftrightarrow> (of_nat k :: rat) * 2 ^ nat (- e) < of_int m"
    by (simp add: pos_less_divide_eq)
  also have "\<dots> \<longleftrightarrow> (of_int (int k * 2 ^ nat (- e)) :: rat) < of_int m"
    by simp
  also have "\<dots> \<longleftrightarrow> int k * 2 ^ nat (- e) < m"
    by (rule of_int_less_iff)
  finally have "(of_nat k :: rat) < of_int m / 2 ^ nat (- e) \<longleftrightarrow> int k * 2 ^ nat (- e) < m" .
  moreover have "float_value m e = of_int m / 2 ^ nat (- e)"
    using False by (simp only: float_value_def power_int_def if_False power_inverse divide_inverse)
  ultimately show ?thesis using False by simp
qed

lemma round_shift_zero [simp]: "round_shift a 0 = a"
  by (simp add: round_shift_def)

lemma round_double_exact:
  assumes "\<bar>m\<bar> < 2 ^ 53" and "- 1074 \<le> e" and "e \<le> 971"
  shows "round_double m e = (if m = 0 then Finite 0 0 else Finite m e)"
proof -
  have b: "bitlen \<bar>m\<bar> \<le> 53"
    using assms(1) by (simp add: bitlen_le_iff_power)
  then have sh: "nat (max (bitlen \<bar>m\<bar> - 53) (- 1074 - e)) = 0"
    using assms(2) by simp
  have "\<not> bitlen \<bar>m\<bar> + e > 1024"
    using b assms(3) by simp
  then show ?thesis
    unfolding round_double_def Let_def sh by (simp add: abs_if)
qed

lemma float_mul_len_exact:
  assumes "\<bar>m\<bar> * int n < 2 ^ 53" and "m \<noteq> 0" and "- 1074 \<le> e" and "e \<le> 971"
  shows "float_mul_len (Finite m e) n = (if n = 0 then Finite 0 0 else Finite (m * int n) e)"
proof (cases "n = 0")
  case True
  have "round_double 0 0 = Finite 0 0" "round_double 0 e = Finite 0 0"
    using round_double_exact [of 0 0] round_double_exact [of 0 e] assms(3,4) by simp_all
  then show ?thesis using True
    by (simp add: float_mul_len_def)
next
  case False
  have "1 \<le> \<bar>m\<bar>" using assms(2) by simp
  then have "int n \<le> \<bar>m\<bar> * int n"
    by (simp add: mult_le_cancel_right1)
  then have n: "\<bar>int n\<bar> < 2 ^ 53" using assms(1) by simp
  have r1: "round_double (int n) 0 = Finite (int n) 0"
    using round_double_exact [OF n, of 0] False by simp
  have "\<bar>m * int n\<bar> < 2 ^ 53" using assms(1) by (simp add: abs_mult)
  then have "round_double (m * int n) e = Finite (m * int n) e"
    using round_double_exact [of "m * int n" e] assms(2,3,4) False by simp
  then show ?thesis using False
    by (simp add: float_mul_len_def r1)
qed

lemma float_value_pos: "0 < float_value m e \<longleftrightarrow> 0 < m"
proof -
  have p: "(0::rat) < 2 powi e" by (rule zero_less_power_int) simp
  then have "\<not> (2::rat) powi e < 0" by (simp add: not_less less_imp_le)
  with p show ?thesis
    by (simp add: float_value_def zero_less_mult_iff)
qed

lemma float_value_times: "float_value (m * int n) e = float_value m e * of_nat n"
  by (simp add: float_value_def)

lemma capitalized_removed_int:
  "capitalized_removed (PyInt i) tokens \<longleftrightarrow>
     0 < i \<and>
     int (length (filter starts_upper (first_occurrences tokens))) <
       i * int (length (first_occurrences tokens))"
  by (simp add: capitalized_removed_def)

lemma capitalized_removed_float:
  assumes "float_mul_len (Finite m e) (length (first_occurrences tokens)) = Finite p q"
  shows "capitalized_removed (PyFloat (Finite m e)) tokens \<longleftrightarrow>
     0 < float_value m e \<and>
     of_nat (length (filter starts_upper (first_occurrences tokens))) < float_value p q"
  using assms
  by (simp add: capitalized_removed_def py_len_lt_float_value float_value_pos del: py_len_lt.simps)

lemma capitalized_removed_exact:
  assumes "\<bar>m\<bar> * int (length (first_occurrences tokens)) < 2 ^ 53"
    and "- 1074 \<le> e" and "e \<le> 971"
  shows "capitalized_removed (PyFloat (Finite m e)) tokens \<longleftrightarrow>
     0 < float_value m e \<and>
     of_nat (length (filter starts_upper (first_occurrences tokens))) <
       float_value m e * of_nat (length (first_occurrences tokens))"
proof (cases "m = 0")
  case True
  then show ?thesis
    by (simp add: capitalized_removed_def float_value_pos)
next
  case False
  let ?n = "length (first_occurrences tokens)"
  have f: "float_mul_len (Finite m e) ?n = (if ?n = 0 then Finite 0 0 else Finite (m * int ?n) e)"
    by (rule float_mul_len_exact [OF assms(1) False assms(2,3)])
  show ?thesis
  proof (cases "?n = 0")
    case True
    then have "float_mul_len (Finite m e) ?n = Finite 0 0" using f by simp
    from capitalized_removed_float [OF this] show ?thesis
      using True by (simp add: float_value_def)
  next
    case n: False
    then have "float_mul_len (Finite m e) ?n = Finite (m * int ?n) e" using f by simp
    from capitalized_removed_float [OF this] show ?thesis
      by (simp add: float_value_times)
  qed
qed

lemma capitalized_removed_special:
  "\<not> capitalized_removed (PyFloat NaN) tokens"
  "\<not> capitalized_removed (PyFloat NegInf) tokens"
  "capitalized_removed (PyFloat PosInf) tokens \<longleftrightarrow> tokens \<noteq> []"
  by (cases tokens; simp add: capitalized_removed_def float_mul_len_def)+

lemma example_kept_threshold: "\<not> py_len_lt 4 (py_mul_len (PyFloat float_0_8) 5)"
  by code_simp

lemma example_kept:
  "sample_tokens 10 (PyFloat float_0_8) [''Apple'', ''Banana'', ''Cherry'', ''Dog'', ''egg''] =
     Inr [''Apple'', ''Banana'', ''Cherry'', ''Dog'', ''egg'']"
proof -
  have ks: "first_occurrences [''Apple'', ''Banana'', ''Cherry'', ''Dog'', ''egg''] =
      [''Apple'', ''Banana'', ''Cherry'', ''Dog'', ''egg'']"
    by simp
  have caps: "filter starts_upper [''Apple'', ''Banana'', ''Cherry'', ''Dog'', ''egg''] =
      [''Apple'', ''Banana'', ''Cherry'', ''Dog'']"
    by (simp add: isupper_def)
  have l4: "length [''Apple'', ''Banana'', ''Cherry'', ''Dog''] = 4" and
    l5: "length [''Apple'', ''Banana'', ''Cherry'', ''Dog'', ''egg''] = 5"
    by simp_all
  have "\<not> capitalized_removed (PyFloat float_0_8)
      [''Apple'', ''Banana'', ''Cherry'', ''Dog'', ''egg'']"
    unfolding capitalized_removed_def ks caps l4 l5 using example_kept_threshold by simp
  then have "kept_tokens (PyFloat float_0_8) [''Apple'', ''Banana'', ''Cherry'', ''Dog'', ''egg''] =
      [''Apple'', ''Banana'', ''Cherry'', ''Dog'', ''egg'']"
    by (simp add: kept_tokens_def)
  moreover have "rank_tokens [''Apple'', ''Banana'', ''Cherry'', ''Dog'', ''egg'']
      [''Apple'', ''Banana'', ''Cherry'', ''Dog'', ''egg''] =
      [''Apple'', ''Banana'', ''Cherry'', ''Dog'', ''egg'']"
    by (simp add: rank_tokens_def)
  ultimately show ?thesis
    by (simp add: sample_tokens_eq)
qed

lemma example_empty_token:
  "sample_tokens 10 (PyFloat float_0_8) ['''', ''Ab'', ''cd'', ''ef''] = Inl IndexError"
  by (simp add: sample_tokens_eq float_0_8_def)

lemma example_empty_token_condition:
  "first_occurrences ['''', ''Ab'', ''cd'', ''ef''] = ['''', ''Ab'', ''cd'', ''ef'']"
  "filter starts_upper ['''', ''Ab'', ''cd'', ''ef''] = [''Ab'']"
  by (simp_all add: isupper_def)

subsection \<open>Claims about the token sampler\<close>

text \<open>
  Claim C2, for tokens that are all non-empty.  \<open>sample_tokens\<close> ranks the distinct
  tokens without the capitalized ones exactly when the capitalized distinct tokens are
  removed, and ranks all distinct tokens otherwise; when the sample size covers all
  distinct tokens, a capitalized token is missing from the result if and only if they
  are removed.  They are removed if and only if the threshold is positive and their
  number is strictly below the threshold times the number of distinct tokens: for an
  \<open>int\<close> threshold in integer arithmetic; for a finite \<open>float\<close> threshold against
  the number the float product stands for, which is the exact product whenever that
  needs no rounding; never for \<open>nan\<close> and \<open>-inf\<close>, and for \<open>inf\<close> unless there are no
  tokens.  With a threshold of zero nothing is filtered, on any input.  On
  \<open>["Apple", "apple", "apple", "Banana", "cat"]\<close> with threshold \<open>0.8\<close> and sample
  size \<open>10\<close> the result is \<open>["apple", "cat"]\<close>; on
  \<open>["Apple", "Banana", "Cherry", "Dog", "egg"]\<close>, where \<open>4 < 0.8 * 5\<close> fails, all five
  tokens are kept.
\<close>

theorem sample_tokens_capitalized_filter:
  "(\<forall>n t tokens. [] \<notin> set tokens \<longrightarrow>
      sample_tokens n t tokens =
        Inr (take (nat n) (rank_tokens tokens
          (if capitalized_removed t tokens
           then filter (\<lambda>k. \<not> starts_upper k) (first_occurrences tokens)
           else first_occurrences tokens)))) \<and>
   (\<forall>n t tokens r k.
      [] \<notin> set tokens \<and> sample_tokens n t tokens = Inr r \<and> k \<in> set tokens \<and>
      starts_upper k \<and> length (first_occurrences tokens) \<le> nat n \<longrightarrow>
      (k \<notin> set r \<longleftrightarrow> capitalized_removed t tokens)) \<and>
   (\<forall>i tokens.
      capitalized_removed (PyInt i) tokens \<longleftrightarrow>
        0 < i \<and>
        int (length (filter starts_upper (first_occurrences tokens))) <
          i * int (length (first_occurrences tokens))) \<and>
   (\<forall>m e p q tokens.
      float_mul_len (Finite m e) (length (first_occurrences tokens)) = Finite p q \<longrightarrow>
      (capitalized_removed (PyFloat (Finite m e)) tokens \<longleftrightarrow>
         0 < float_value m e \<and>
         of_nat (length (filter starts_upper (first_occurrences tokens))) < float_value p q)) \<and>
   (\<forall>m e tokens.
      \<bar>m\<bar> * int (length (first_occurrences tokens)) < 2 ^ 53 \<and> - 1074 \<le> e \<and> e \<le> 971 \<longrightarrow>
      (capitalized_removed (PyFloat (Finite m e)) tokens \<longleftrightarrow>
         0 < float_value m e \<and>
         of_nat (length (filter starts_upper (first_occurrences tokens))) <
           float_value m e * of_nat (length (first_occurrences tokens)))) \<and>
   (\<forall>tokens.
      \<not> capitalized_removed (PyFloat NaN) tokens \<and>
      \<not> capitalized_removed (PyFloat NegInf) tokens \<and>
      (capitalized_removed (PyFloat PosInf) tokens \<longleftrightarrow> tokens \<noteq> [])) \<and>
   (\<forall>n e tokens.
      sample_tokens n (PyInt 0) tokens =
        Inr (take (nat n) (rank_tokens tokens (first_occurrences tokens))) \<and>
      sample_tokens n (PyFloat (Finite 0 e)) tokens =
        Inr (take (nat n) (rank_tokens tokens (first_occurrences tokens)))) \<and>
   sample_tokens 10 (PyFloat float_0_8) [''Apple'', ''apple'', ''apple'', ''Banana'', ''cat''] =
     Inr [''apple'', ''cat''] \<and>
   sample_tokens 10 (PyFloat float_0_8) [''Apple'', ''Banana'', ''Cherry'', ''Dog'', ''egg''] =
     Inr [''Apple'', ''Banana'', ''Cherry'', ''Dog'', ''egg'']"
  apply (intro conjI allI impI)
  subgoal by (simp add: sample_tokens_eq kept_tokens_def)
  subgoal for n t tokens r k
    using sample_tokens_removed_iff [of tokens n t r k] by simp
  subgoal by (rule capitalized_removed_int)
  subgoal by (rule capitalized_removed_float)
  subgoal by (rule capitalized_removed_exact) simp_all
  subgoal by (rule capitalized_removed_special)
  subgoal by (rule capitalized_removed_special)
  subgoal by (rule capitalized_removed_special)
  subgoal by (simp add: sample_tokens_eq kept_tokens_def capitalized_removed_def)
  subgoal by (simp add: sample_tokens_eq kept_tokens_def capitalized_removed_def)
  subgoal by (rule example_sample)
  subgoal by (rule example_kept)
  done

theorem sample_tokens_capitalized_filter_witness:
  "[] \<notin> set [''Zed'', ''ab'', ''ab'', ''cd''] \<and>
   capitalized_removed (PyInt 1) [''Zed'', ''ab'', ''ab'', ''cd''] \<and>
   sample_tokens 5 (PyInt 1) [''Zed'', ''ab'', ''ab'', ''cd''] = Inr [''ab'', ''cd''] \<and>
   [] \<notin> set [''Ab'', ''Cd'', ''ef''] \<and>
   \<not> capitalized_removed (PyFloat (Finite 1 (- 1))) [''Ab'', ''Cd'', ''ef''] \<and>
   sample_tokens 5 (PyFloat (Finite 1 (- 1))) [''Ab'', ''Cd'', ''ef''] = Inr [''Ab'', ''Cd'', ''ef'']"
proof -
  note t = sample_tokens_capitalized_filter
  note A = t [THEN conjunct1, rule_format]
  note C = t [THEN conjunct2, THEN conjunct2, THEN conjunct1, rule_format]
  note E = t [THEN conjunct2, THEN conjunct2, THEN conjunct2, THEN conjunct2, THEN conjunct1,
      rule_format]
  have ne: "[] \<notin> set [''Zed'', ''ab'', ''ab'', ''cd'']" "[] \<notin> set [''Ab'', ''Cd'', ''ef'']"
    by simp_all
  have "capitalized_removed (PyInt 1) [''Zed'', ''ab'', ''ab'', ''cd''] \<longleftrightarrow>
      0 < (1::int) \<and>
      int (length (filter starts_upper (first_occurrences [''Zed'', ''ab'', ''ab'', ''cd'']))) <
        1 * int (length (first_occurrences [''Zed'', ''ab'', ''ab'', ''cd'']))"
    by (rule C)
  then have rm: "capitalized_removed (PyInt 1) [''Zed'', ''ab'', ''ab'', ''cd'']"
    by (simp add: isupper_def)
  have h: "\<bar>1\<bar> * int (length (first_occurrences [''Ab'', ''Cd'', ''ef''])) < 2 ^ 53 \<and>
      - 1074 \<le> (- 1 :: int) \<and> (- 1 :: int) \<le> 971"
    by simp
  have "capitalized_removed (PyFloat (Finite 1 (- 1))) [''Ab'', ''Cd'', ''ef''] \<longleftrightarrow>
      0 < float_value 1 (- 1) \<and>
      of_nat (length (filter starts_upper (first_occurrences [''Ab'', ''Cd'', ''ef'']))) <
        float_value 1 (- 1) * of_nat (length (first_occurrences [''Ab'', ''Cd'', ''ef'']))"
    by (rule E [OF h])
  then have kp: "\<not> capitalized_removed (PyFloat (Finite 1 (- 1))) [''Ab'', ''Cd'', ''ef'']"
    by (simp add: isupper_def float_value_def)
  have "sample_tokens 5 (PyInt 1) [''Zed'', ''ab'', ''ab'', ''cd''] =
        Inr (take (nat 5) (rank_tokens [''Zed'', ''ab'', ''ab'', ''cd'']
          (if capitalized_removed (PyInt 1) [''Zed'', ''ab'', ''ab'', ''cd'']
           then filter (\<lambda>k. \<not> starts_upper k) (first_occurrences [''Zed'', ''ab'', ''ab'', ''cd''])
           else first_occurrences [''Zed'', ''ab'', ''ab'', ''cd''])))"
    by (rule A [OF ne(1)])
  then have s1: "sample_tokens 5 (PyInt 1) [''Zed'', ''ab'', ''ab'', ''cd''] = Inr [''ab'', ''cd'']"
    using rm by (simp add: rank_tokens_def isupper_def)
  have "sample_tokens 5 (PyFloat (Finite 1 (- 1))) [''Ab'', ''Cd'', ''ef''] =
        Inr (take (nat 5) (rank_tokens [''Ab'', ''Cd'', ''ef'']
          (if capitalized_removed (PyFloat (Finite 1 (- 1))) [''Ab'', ''Cd'', ''ef'']
           then filter (\<lambda>k. \<not> starts_upper k) (first_occurrences [''Ab'', ''Cd'', ''ef''])
           else first_occurrences [''Ab'', ''Cd'', ''ef''])))"
    by (rule A [OF ne(2)])
  then have s2: "sample_tokens 5 (PyFloat (Finite 1 (- 1))) [''Ab'', ''Cd'', ''ef''] =
      Inr [''Ab'', ''Cd'', ''ef'']"
    using kp by (simp add: rank_tokens_def)
  show ?thesis
    by (intro conjI ne rm kp s1 s2)
qed

text \<open>
  The restriction to non-empty tokens is needed: on \<open>["", "Ab", "cd", "ef"]\<close> with
  threshold \<open>0.8\<close> the condition holds (\<open>1 < 0.8 * 4\<close>), and the call raises
  \<open>IndexError\<close> instead of returning a sample without \<open>"Ab"\<close>.
\<close>

theorem sample_tokens_capitalized_filter_counterexample:
  "py_gt_zero (PyFloat float_0_8) \<and>
   filter starts_upper (first_occurrences ['''', ''Ab'', ''cd'', ''ef'']) = [''Ab''] \<and>
   length (first_occurrences ['''', ''Ab'', ''cd'', ''ef'']) = 4 \<and>
   float_mul_len float_0_8 4 = Finite 7205759403792794 (- 51) \<and>
   (1::rat) < float_value 7205759403792794 (- 51) \<and>
   capitalized_removed (PyFloat float_0_8) ['''', ''Ab'', ''cd'', ''ef''] \<and>
   sample_tokens 10 (PyFloat float_0_8) ['''', ''Ab'', ''cd'', ''ef''] = Inl IndexError"
proof -
  have m: "float_mul_len float_0_8 4 = Finite 7205759403792794 (- 51)"
    by code_simp
  have "py_len_lt 1 (PyFloat (Finite 7205759403792794 (- 51)))"
    by simp
  then have v: "(1::rat) < float_value 7205759403792794 (- 51)"
    unfolding py_len_lt_float_value by simp
  have p: "py_gt_zero (PyFloat float_0_8)"
    by (simp add: float_0_8_def)
  have l: "length ['''', ''Ab'', ''cd'', ''ef''] = 4" "length [''Ab''] = 1"
    by simp_all
  have "capitalized_removed (PyFloat (Finite 7205759403792794 (- 53))) ['''', ''Ab'', ''cd'', ''ef''] \<longleftrightarrow>
      0 < float_value 7205759403792794 (- 53) \<and>
      of_nat (length (filter starts_upper (first_occurrences ['''', ''Ab'', ''cd'', ''ef'']))) <
        float_value 7205759403792794 (- 51)"
    by (rule capitalized_removed_float)
      (simp only: example_empty_token_condition l m [unfolded float_0_8_def])
  then have c: "capitalized_removed (PyFloat float_0_8) ['''', ''Ab'', ''cd'', ''ef'']"
    unfolding example_empty_token_condition l float_0_8_def
    using v by (simp add: float_value_pos)
  show ?thesis
    unfolding example_empty_token_condition l
    by (intro conjI p m v c example_empty_token refl)
qed

text \<open>
  Claim C3.  A list returned by \<open>sample_tokens\<close> holds distinct tokens of the input,
  is no longer than the sample size (it has the sample size's length when more tokens
  survive the filter), and is ordered by descending frequency in the input, tokens of
  equal frequency in the order of their first appearance.
\<close>

theorem sample_tokens_ranked:
  assumes "sample_tokens n t tokens = Inr r"
  shows "distinct r \<and> set r \<subseteq> set tokens \<and> length r \<le> nat n \<and>
         length r = min (nat n) (length (kept_tokens t tokens)) \<and>
         sorted_wrt (ranked_before tokens) r"
proof -
  have r: "r = take (nat n) (rank_tokens tokens (kept_tokens t tokens))"
    using assms by (simp add: sample_tokens_eq split: if_splits)
  have "sorted_wrt (ranked_before tokens) (rank_tokens tokens (kept_tokens t tokens))"
    by (rule sorted_wrt_rank_tokens) (rule sorted_wrt_kept_tokens)
  then have "sorted_wrt (ranked_before tokens) r"
    unfolding r by (rule sorted_wrt_take)
  moreover have "set r \<subseteq> set tokens"
    unfolding r using set_kept_tokens [of t tokens] set_take_subset [of "nat n"] by fastforce
  moreover have "distinct r"
    unfolding r by (simp add: distinct_take)
  ultimately show ?thesis
    by (simp add: r min.commute)
qed

theorem sample_tokens_ranked_witness:
  "sample_tokens 2 (PyInt 0) [''b'', ''a'', ''a'', ''b'', ''c'', ''d'', ''d''] = Inr [''b'', ''a''] \<and>
   distinct [''b'', ''a''] \<and> length [''b'', ''a''] \<le> nat 2 \<and>
   sorted_wrt (ranked_before [''b'', ''a'', ''a'', ''b'', ''c'', ''d'', ''d'']) [''b'', ''a'']"
proof -
  have h: "sample_tokens 2 (PyInt 0) [''b'', ''a'', ''a'', ''b'', ''c'', ''d'', ''d''] = Inr [''b'', ''a'']"
    by (simp add: sample_tokens_eq kept_tokens_def capitalized_removed_def rank_tokens_def)
  show ?thesis
    using h sample_tokens_ranked [OF h] by simp
qed

text \<open>
  Claim C8.  \<open>sample_text\<close> of any sampler is the sampler's own \<open>sample_tokens\<close>
  applied to what its tokenizer splits the text into; for the two concrete samplers that
  is \<open>MostCommonTokenSampler.sample_tokens\<close>.
\<close>

theorem sample_text_composition:
  "sample_text self text = sample_tokens_method self (tokenizer self text) \<and>
   sample_text (MostCommonTokenSampler tok n t) text = sample_tokens n t (tok text) \<and>
   sample_text (RelaxedMostCommonTokenSampler tok n t) text = sample_tokens n t (tok text)"
  by (simp add: sample_text_def MostCommonTokenSampler_def RelaxedMostCommonTokenSampler_def)

text \<open>
  Claim C10.  With a positive threshold, \<open>sample_tokens\<close> raises \<open>IndexError\<close> on
  every input that contains the empty string; on an input of non-empty tokens, or with
  a threshold that is not positive, it returns a sample.
\<close>

theorem sample_tokens_empty_token:
  "(py_gt_zero t \<and> [] \<in> set tokens \<longrightarrow> sample_tokens n t tokens = Inl IndexError) \<and>
   (\<not> py_gt_zero t \<or> [] \<notin> set tokens \<longrightarrow> (\<exists>r. sample_tokens n t tokens = Inr r))"
  by (simp add: sample_tokens_eq)

theorem sample_tokens_empty_token_witness:
  "(py_gt_zero (PyFloat float_0_8) \<and> [] \<in> set [''abc'', '''']) \<and>
   sample_tokens 100 (PyFloat float_0_8) [''abc'', ''''] = Inl IndexError \<and>
   [] \<notin> set [''abc'', ''Abc''] \<and>
   (\<exists>r. sample_tokens 100 (PyFloat float_0_8) [''abc'', ''Abc''] = Inr r) \<and>
   \<not> py_gt_zero (PyInt 0) \<and>
   (\<exists>r. sample_tokens 100 (PyInt 0) [''abc'', ''''] = Inr r)"
  using sample_tokens_empty_token [of "PyFloat float_0_8" "[''abc'', '''']" 100]
    sample_tokens_empty_token [of "PyFloat float_0_8" "[''abc'', ''Abc'']" 100]
    sample_tokens_empty_token [of "PyInt 0" "[''abc'', '''']" 100]
  by (simp add: float_0_8_def)

section \<open>Properties of the dictionary factory\<close>

subsection \<open>Loader, cache and loop\<close>

lemma get_dictionaries_tuple:
  "get_dictionaries LL disk (PTuple langs) s =
     (case load_langs LL disk langs (s\<lparr>data := []\<rparr>) of
        (Some e, s3) \<Rightarrow> (Inl e, s3)
      | (None, s3) \<Rightarrow> (Inr (data s3), s3))"
  by (simp add: get_dictionaries_def control_lang_def)

lemma get_dictionaries_str:
  "get_dictionaries LL disk (PStr x) s = get_dictionaries LL disk (PTuple [x]) s"
  by (simp add: get_dictionaries_def control_lang_def)

lemma load_cases:
  obtains (ok) d where "disk (dictionary_path k) = Pickled (PDict d)"
      "load_dictionary_from_disk disk k s = (Inr d, s\<lparr>opened := opened s @ [dictionary_path k]\<rparr>)"
  | (err) e where "\<not> loadable disk k"
      "load_dictionary_from_disk disk k s = (Inl e, s\<lparr>opened := opened s @ [dictionary_path k]\<rparr>)"
      "e \<in> {FileNotFoundError, CorruptDataError, AssertionError}"
  by (cases "disk (dictionary_path k)"; cases "case disk (dictionary_path k) of Pickled v \<Rightarrow> v | _ \<Rightarrow> PNone")
     (auto simp: load_dictionary_from_disk_def Let_def loadable_def)

lemma load_result_indep:
  "fst (load_dictionary_from_disk disk k s) = fst (load_dictionary_from_disk disk k s')"
  by (simp add: load_dictionary_from_disk_def Let_def split: resource.splits pyval.splits)

lemma cached_load_data [simp]: "data (snd (cached_load disk k s)) = data s"
  by (cases rule: load_cases [of disk k "s\<lparr>cache := (cache s)\<lparr>misses := misses (cache s) + 1\<rparr>\<rparr>"])
     (auto simp: cached_load_def Let_def split: option.splits)

lemma cached_load_logged [simp]: "logged (snd (cached_load disk k s)) = logged s"
  by (cases rule: load_cases [of disk k "s\<lparr>cache := (cache s)\<lparr>misses := misses (cache s) + 1\<rparr>\<rparr>"])
     (auto simp: cached_load_def Let_def split: option.splits)

lemma cached_load_error:
  assumes "cached_load disk k s = (Inl e, s')"
  shows "\<not> loadable disk k \<and> e \<in> {FileNotFoundError, CorruptDataError, AssertionError}"
  using assms
  by (cases rule: load_cases [of disk k "s\<lparr>cache := (cache s)\<lparr>misses := misses (cache s) + 1\<rparr>\<rparr>"])
     (auto simp: cached_load_def Let_def split: option.splits if_splits)

text \<open>Keys of a dict filled in request order.\<close>

lemma foldl_first_occurrences:
  "foldl (\<lambda>ks l. if l \<in> set ks then ks else ks @ [l]) [] xs = first_occurrences xs"
proof (induction xs rule: rev_induct)
  case Nil
  show ?case by simp
next
  case (snoc x xs)
  then show ?case by (simp add: first_occurrences_snoc)
qed

lemma load_langs_error:
  "load_langs LL disk langs s = (Some e, s') \<Longrightarrow>
     (\<exists>l\<in>set langs. l \<in> set LL \<and> \<not> loadable disk l) \<and>
     e \<in> {FileNotFoundError, CorruptDataError, AssertionError}"
proof (induction langs arbitrary: s)
  case Nil
  then show ?case by simp
next
  case (Cons l langs)
  show ?case
  proof (cases "l \<in> set LL")
    case False
    then show ?thesis using Cons by auto
  next
    case True
    obtain r s1 where c: "cached_load disk l (s\<lparr>logged := logged s @ [LogDebug l]\<rparr>) = (r, s1)"
      by (cases "cached_load disk l (s\<lparr>logged := logged s @ [LogDebug l]\<rparr>)")
    show ?thesis
    proof (cases r)
      case (Inl e')
      then show ?thesis using Cons.prems True c cached_load_error [of disk l _ e' s1]
        by auto
    next
      case (Inr d)
      then have "load_langs LL disk langs (s1\<lparr>data := AList.update l d (data s1)\<rparr>) = (Some e, s')"
        using Cons.prems True c by simp
      from Cons.IH [OF this] show ?thesis by auto
    qed
  qed
qed

lemma load_langs_ok:
  "load_langs LL disk langs s = (None, s') \<Longrightarrow>
     map fst (data s') =
       foldl (\<lambda>ks l. if l \<in> set ks then ks else ks @ [l]) (map fst (data s))
         (filter (\<lambda>l. l \<in> set LL) langs) \<and>
     logged s' = logged s @ map (\<lambda>l. if l \<in> set LL then LogDebug l else LogError l) langs"
proof (induction langs arbitrary: s)
  case Nil
  then show ?case by simp
next
  case (Cons l langs)
  show ?case
  proof (cases "l \<in> set LL")
    case False
    then have "load_langs LL disk langs (s\<lparr>logged := logged s @ [LogError l]\<rparr>) = (None, s')"
      using Cons.prems by simp
    from Cons.IH [OF this] show ?thesis using False by simp
  next
    case True
    obtain r s1 where c: "cached_load disk l (s\<lparr>logged := logged s @ [LogDebug l]\<rparr>) = (r, s1)"
      by (cases "cached_load disk l (s\<lparr>logged := logged s @ [LogDebug l]\<rparr>)")
    have s1: "data s1 = data s" "logged s1 = logged s @ [LogDebug l]"
      using cached_load_data [of disk l "s\<lparr>logged := logged s @ [LogDebug l]\<rparr>"]
        cached_load_logged [of disk l "s\<lparr>logged := logged s @ [LogDebug l]\<rparr>"] c by simp_all
    show ?thesis
    proof (cases r)
      case (Inl e')
      then show ?thesis using Cons.prems True c by simp
    next
      case (Inr d)
      then have "load_langs LL disk langs (s1\<lparr>data := AList.update l d (data s1)\<rparr>) = (None, s')"
        using Cons.prems True c by simp
      from Cons.IH [OF this] show ?thesis using True s1
        by (simp add: update_keys)
    qed
  qed
qed

lemma map_of_None_keys: "map_of xs k = None \<longleftrightarrow> k \<notin> fst ` set xs"
  by (simp add: map_of_eq_None_iff)

lemma cached_load_miss_error:
  assumes "k \<notin> fst ` set (entries (cache s))"
    and "fst (load_dictionary_from_disk disk k s0) = Inl e"
  shows "fst (cached_load disk k s) = Inl e"
proof -
  let ?s = "s\<lparr>cache := (cache s)\<lparr>misses := misses (cache s) + 1\<rparr>\<rparr>"
  have m: "map_of (entries (cache s)) k = None"
    using assms(1) by (simp add: map_of_None_keys)
  have "fst (load_dictionary_from_disk disk k ?s) = Inl e"
    using assms(2) load_result_indep [of disk k ?s s0] by simp
  then obtain s1 where "load_dictionary_from_disk disk k ?s = (Inl e, s1)"
    by (cases "load_dictionary_from_disk disk k ?s") auto
  then show ?thesis
    by (simp add: cached_load_def Let_def m split: option.splits)
qed

lemma get_dictionaries_single_error:
  assumes "lang \<in> set LL" and "lang \<notin> fst ` set (entries (cache s))"
    and "fst (load_dictionary_from_disk disk lang s) = Inl e"
  shows "fst (get_dictionaries LL disk (PStr lang) s) = Inl e"
proof -
  let ?s = "s\<lparr>data := [], logged := logged s @ [LogDebug lang]\<rparr>"
  have "lang \<notin> fst ` set (entries (cache ?s))" using assms(2) by simp
  then have "fst (cached_load disk lang ?s) = Inl e"
    using assms(3) by (rule cached_load_miss_error)
  then obtain s1 where "cached_load disk lang ?s = (Inl e, s1)"
    by (cases "cached_load disk lang ?s") auto
  then show ?thesis
    using assms(1) by (simp add: get_dictionaries_str get_dictionaries_tuple)
qed

lemma example_disk_simps:
  "example_disk (dictionary_path ''en'') = Pickled (PDict [(''dogs'', ''dog'')])"
  "example_disk (dictionary_path ''de'') = Pickled (PDict [(''Hunde'', ''Hund'')])"
  "example_disk (dictionary_path ''fr'') = Pickled (PDict [(''chiens'', ''chien'')])"
  "example_disk (dictionary_path ''it'') = Malformed"
  "example_disk (dictionary_path ''es'') = Missing"
  by (simp_all add: example_disk_def dictionary_path_def)

lemma first_call:
  "get_dictionaries [''en'', ''de''] example_disk (PTuple [''en'']) (DictionaryFactory (Some 8)) =
     (Inr [(''en'', [(''dogs'', ''dog'')])],
      \<lparr>data = [(''en'', [(''dogs'', ''dog'')])],
       cache = \<lparr>maxsize = Some 8, entries = [(''en'', [(''dogs'', ''dog'')])],
                hits = 0, misses = 1, full = False\<rparr>,
       opened = [''data/en.plzma''],
       logged = [LogDebug ''en'']\<rparr>)"
  by (simp add: get_dictionaries_tuple DictionaryFactory_def new_lru_cache_def cached_load_def
      load_dictionary_from_disk_def example_disk_simps lru_store_def Let_def)
    (simp add: dictionary_path_def)

lemma second_call:
  "get_dictionaries [''en'', ''de''] example_disk (PTuple [''en''])
     \<lparr>data = [(''en'', [(''dogs'', ''dog'')])],
      cache = \<lparr>maxsize = Some 8, entries = [(''en'', [(''dogs'', ''dog'')])],
               hits = 0, misses = 1, full = False\<rparr>,
      opened = [''data/en.plzma''],
      logged = [LogDebug ''en'']\<rparr> =
     (Inr [(''en'', [(''dogs'', ''dog'')])],
      \<lparr>data = [(''en'', [(''dogs'', ''dog'')])],
       cache = \<lparr>maxsize = Some 8, entries = [(''en'', [(''dogs'', ''dog'')])],
                hits = 1, misses = 1, full = False\<rparr>,
       opened = [''data/en.plzma''],
       logged = [LogDebug ''en'', LogDebug ''en'']\<rparr>)"
  by (simp add: get_dictionaries_tuple cached_load_def Let_def)

subsection \<open>The least recently used order\<close>

lemma requested_append [simp]: "requested (xs @ ys) = requested xs @ requested ys"
  by (induction xs rule: requested.induct) simp_all

lemma remdups_snoc: "remdups (xs @ [x]) = filter (\<lambda>y. y \<noteq> x) (remdups xs) @ [x]"
  by (induction xs) auto

lemma length_filter_neq_distinct:
  "distinct xs \<Longrightarrow> l \<in> set xs \<Longrightarrow> Suc (length (filter (\<lambda>y. y \<noteq> l) xs)) = length xs"
proof (induction xs)
  case Nil
  then show ?case by simp
next
  case (Cons x xs)
  show ?case
  proof (cases "x = l")
    case True
    then have "l \<notin> set xs" using Cons.prems by simp
    then have "filter (\<lambda>y. y \<noteq> l) xs = xs" by (auto simp: filter_id_conv)
    then show ?thesis using True by simp
  next
    case False
    then show ?thesis using Cons by simp
  qed
qed

lemma most_recent_hit:
  assumes "l \<in> set (most_recent n acc)"
  shows "most_recent n (acc @ [l]) = filter (\<lambda>y. y \<noteq> l) (most_recent n acc) @ [l]"
proof -
  let ?R = "remdups acc"
  let ?k = "length ?R - n"
  have l: "l \<in> set (drop ?k ?R)"
    using assms by (simp add: most_recent_def)
  have "distinct (take ?k ?R @ drop ?k ?R)" by simp
  then have "l \<notin> set (take ?k ?R)"
    using l unfolding distinct_append by blast
  then have t: "filter (\<lambda>y. y \<noteq> l) (take ?k ?R) = take ?k ?R"
    by (auto simp: filter_id_conv)
  have "filter (\<lambda>y. y \<noteq> l) ?R = filter (\<lambda>y. y \<noteq> l) (take ?k ?R @ drop ?k ?R)"
    by simp
  also have "\<dots> = take ?k ?R @ filter (\<lambda>y. y \<noteq> l) (drop ?k ?R)"
    unfolding filter_append t ..
  finally have f: "filter (\<lambda>y. y \<noteq> l) ?R = take ?k ?R @ filter (\<lambda>y. y \<noteq> l) (drop ?k ?R)" .
  have "l \<in> set ?R" using l by (meson in_set_dropD)
  then have len: "length (filter (\<lambda>y. y \<noteq> l) ?R) + 1 = length ?R"
    using length_filter_neq_distinct [of ?R l] by simp
  have R': "remdups (acc @ [l]) = take ?k ?R @ filter (\<lambda>y. y \<noteq> l) (drop ?k ?R) @ [l]"
    unfolding remdups_snoc f by simp
  have lenR': "length (remdups (acc @ [l])) = length ?R"
    unfolding remdups_snoc using len by simp
  have "most_recent n (acc @ [l]) =
      drop (length (remdups (acc @ [l])) - n) (remdups (acc @ [l]))"
    by (simp only: most_recent_def)
  also have "\<dots> = drop ?k (remdups (acc @ [l]))"
    by (simp only: lenR')
  also have "\<dots> = drop ?k (take ?k ?R @ filter (\<lambda>y. y \<noteq> l) (drop ?k ?R) @ [l])"
    by (simp only: R')
  also have "\<dots> = filter (\<lambda>y. y \<noteq> l) (drop ?k ?R) @ [l]"
    by simp
  finally show ?thesis by (simp add: most_recent_def)
qed

lemma most_recent_miss_room:
  assumes "l \<notin> set (most_recent n acc)" and "length (most_recent n acc) < n"
  shows "most_recent n (acc @ [l]) = most_recent n acc @ [l]"
proof -
  have "length (remdups acc) < n"
    using assms(2) by (simp add: most_recent_def)
  moreover from this have "most_recent n acc = remdups acc"
    by (simp add: most_recent_def)
  moreover from this have "filter (\<lambda>y. y \<noteq> l) (remdups acc) = remdups acc"
    using assms(1) by (auto simp: filter_id_conv)
  ultimately show ?thesis
    by (simp add: most_recent_def remdups_snoc)
qed

lemma most_recent_miss_full:
  assumes "l \<notin> set (most_recent n acc)" and "length (most_recent n acc) = n" and "0 < n"
  shows "most_recent n (acc @ [l]) = tl (most_recent n acc) @ [l]"
proof -
  let ?R = "remdups acc"
  let ?k = "length ?R - n"
  let ?E = "drop ?k ?R"
  have E: "most_recent n acc = ?E" by (simp add: most_recent_def)
  have n: "n \<le> length ?R" using assms(2) unfolding E by simp
  have fE: "filter (\<lambda>y. y \<noteq> l) ?E = ?E"
    using assms(1) unfolding E by (auto simp: filter_id_conv)
  have "filter (\<lambda>y. y \<noteq> l) ?R = filter (\<lambda>y. y \<noteq> l) (take ?k ?R @ ?E)"
    by simp
  also have "\<dots> = filter (\<lambda>y. y \<noteq> l) (take ?k ?R) @ ?E"
    unfolding filter_append fE ..
  finally have f: "filter (\<lambda>y. y \<noteq> l) ?R = filter (\<lambda>y. y \<noteq> l) (take ?k ?R) @ ?E" .
  let ?P = "filter (\<lambda>y. y \<noteq> l) (take ?k ?R)"
  have lenE: "length ?E = n" using assms(2) unfolding E .
  have "most_recent n (acc @ [l]) = drop (length (?P @ ?E @ [l]) - n) (?P @ ?E @ [l])"
    unfolding most_recent_def remdups_snoc f Let_def by simp
  also have "length (?P @ ?E @ [l]) - n = length ?P + 1"
    using lenE by simp
  also have "drop (length ?P + 1) (?P @ ?E @ [l]) = drop 1 (?E @ [l])"
    by simp
  also have "\<dots> = tl ?E @ [l]"
    using lenE assms(3) by (cases ?E) auto
  finally show ?thesis unfolding E .
qed

lemma most_recent_zero [simp]: "most_recent 0 acc = []"
  by (simp add: most_recent_def)

lemma load_cache [simp]: "cache (snd (load_dictionary_from_disk disk k s)) = cache s"
  by (simp add: load_dictionary_from_disk_def Let_def split: resource.splits pyval.splits)

lemma keys_filter_neq:
  "map fst (filter (\<lambda>p. fst p \<noteq> k) xs) = filter (\<lambda>y. y \<noteq> k) (map fst xs)"
  by (induction xs) auto

lemma cached_load_cases [consumes 1, case_names hit miss_ok miss_err]:
  assumes "maxsize (cache s) = Some n"
  obtains (hit) d where "0 < n \<or> n < 0" "map_of (entries (cache s)) k = Some d"
      "cached_load disk k s =
        (Inr d, s\<lparr>cache := (cache s)\<lparr>entries := filter (\<lambda>p. fst p \<noteq> k) (entries (cache s)) @ [(k, d)],
                                    hits := hits (cache s) + 1\<rparr>\<rparr>)"
  | (miss_ok) d where "n = 0 \<or> k \<notin> fst ` set (entries (cache s))"
      "disk (dictionary_path k) = Pickled (PDict d)"
      "cached_load disk k s =
        (Inr d, s\<lparr>cache := (if n = 0 then (cache s)\<lparr>misses := misses (cache s) + 1\<rparr>
                            else lru_store n k d ((cache s)\<lparr>misses := misses (cache s) + 1\<rparr>)),
                  opened := opened s @ [dictionary_path k]\<rparr>)"
  | (miss_err) e where "n = 0 \<or> k \<notin> fst ` set (entries (cache s))"
      "\<not> loadable disk k"
      "cached_load disk k s =
        (Inl e, s\<lparr>cache := (cache s)\<lparr>misses := misses (cache s) + 1\<rparr>,
                  opened := opened s @ [dictionary_path k]\<rparr>)"
proof -
  let ?s = "s\<lparr>cache := (cache s)\<lparr>misses := misses (cache s) + 1\<rparr>\<rparr>"
  show ?thesis
  proof (cases "n \<noteq> 0 \<and> map_of (entries (cache s)) k \<noteq> None")
    case True
    then obtain d where "map_of (entries (cache s)) k = Some d" by auto
    then show ?thesis
      using True assms by (intro hit [of d]) (auto simp: cached_load_def Let_def)
  next
    case False
    then have m: "n = 0 \<or> k \<notin> fst ` set (entries (cache s))"
      by (auto simp: map_of_None_keys)
    show ?thesis
    proof (cases rule: load_cases [of disk k ?s])
      case (ok d)
      then show ?thesis
        using False assms m by (intro miss_ok [of d]) (auto simp: cached_load_def Let_def)
    next
      case (err e)
      then show ?thesis
        using False assms m by (intro miss_err [of e]) (auto simp: cached_load_def Let_def)
    qed
  qed
qed

lemma lru_store_inv:
  assumes "lru_inv n c" and "0 < n" and "k \<notin> fst ` set (entries c)"
  shows "lru_inv n (lru_store n k d c)"
    and "map fst (entries (lru_store n k d c)) =
      (if full c then tl (map fst (entries c)) @ [k] else map fst (entries c) @ [k])"
proof -
  show "map fst (entries (lru_store n k d c)) =
      (if full c then tl (map fst (entries c)) @ [k] else map fst (entries c) @ [k])"
    using assms(3) by (simp add: lru_store_def Let_def map_tl)
  show "lru_inv n (lru_store n k d c)"
  proof (cases "full c")
    case True
    then have len: "int (length (entries c)) = n"
      using assms(1) by (simp add: lru_inv_def)
    then obtain e es where e: "entries c = e # es"
      using assms(2) by (cases "entries c") auto
    show ?thesis
      using assms True e len by (auto simp: lru_store_def lru_inv_def)
  next
    case False
    then show ?thesis
      using assms by (auto simp: lru_store_def lru_inv_def Let_def)
  qed
qed

lemma length_filter_keys:
  assumes "distinct (map fst xs)" and "map_of xs k = Some d"
  shows "Suc (length (filter (\<lambda>p. fst p \<noteq> k) xs)) = length xs"
proof -
  have "k \<in> set (map fst xs)"
    using assms(2) by (metis map_of_eq_None_iff option.distinct(1) set_map)
  then have "Suc (length (filter (\<lambda>y. y \<noteq> k) (map fst xs))) = length (map fst xs)"
    using assms(1) by (rule length_filter_neq_distinct [rotated])
  then show ?thesis
    by (simp add: keys_filter_neq [symmetric])
qed

lemma cached_load_inv:
  assumes "lru_inv n (cache s)"
  shows "lru_inv n (cache (snd (cached_load disk k s)))"
proof -
  have m: "maxsize (cache s) = Some n" and n: "0 \<le> n"
    using assms by (simp_all add: lru_inv_def)
  from m show ?thesis
  proof (cases rule: cached_load_cases [where k = k and disk = disk])
    case (hit d)
    have "Suc (length (filter (\<lambda>p. fst p \<noteq> k) (entries (cache s)))) = length (entries (cache s))"
      using assms hit(2) by (intro length_filter_keys) (simp_all add: lru_inv_def)
    then show ?thesis
      using assms hit(3) by (auto simp: lru_inv_def keys_filter_neq)
  next
    case (miss_ok d)
    show ?thesis
    proof (cases "n = 0")
      case True
      then show ?thesis using assms miss_ok(3) by (simp add: lru_inv_def)
    next
      case False
      let ?c = "(cache s)\<lparr>misses := misses (cache s) + 1\<rparr>"
      have "lru_inv n ?c" using assms by (simp add: lru_inv_def)
      moreover have "k \<notin> fst ` set (entries ?c)" using miss_ok(1) False by simp
      ultimately have "lru_inv n (lru_store n k d ?c)"
        using False n by (intro lru_store_inv(1)) simp_all
      then show ?thesis using miss_ok(3) False by simp
    qed
  next
    case (miss_err e)
    then show ?thesis using assms by (simp add: lru_inv_def)
  qed
qed

lemma cached_load_keys:
  assumes "lru_inv n (cache s)" and "loadable disk k"
  shows "map fst (entries (cache (snd (cached_load disk k s)))) =
           keys_after n (full (cache s)) k (map fst (entries (cache s)))"
proof -
  have m: "maxsize (cache s) = Some n" and n: "0 \<le> n"
    using assms by (simp_all add: lru_inv_def)
  from m show ?thesis
  proof (cases rule: cached_load_cases [where k = k and disk = disk])
    case (hit d)
    have "k \<in> set (map fst (entries (cache s)))"
      using hit(2) by (metis map_of_eq_None_iff option.distinct(1) set_map)
    then show ?thesis
      using hit n by (auto simp: keys_after_def keys_filter_neq)
  next
    case (miss_ok d)
    show ?thesis
    proof (cases "n = 0")
      case True
      then show ?thesis using miss_ok(3) by (simp add: keys_after_def)
    next
      case False
      let ?c = "(cache s)\<lparr>misses := misses (cache s) + 1\<rparr>"
      have "lru_inv n ?c" using assms by (simp add: lru_inv_def)
      moreover have k: "k \<notin> fst ` set (entries ?c)" using miss_ok(1) False by simp
      ultimately have "map fst (entries (lru_store n k d ?c)) =
          (if full ?c then tl (map fst (entries ?c)) @ [k] else map fst (entries ?c) @ [k])"
        using False n by (intro lru_store_inv(2)) simp_all
      then show ?thesis using miss_ok(3) False k by (simp add: keys_after_def)
    qed
  next
    case (miss_err e)
    then show ?thesis using assms(2) by simp
  qed
qed

lemma keys_after_most_recent:
  assumes "ks = most_recent (nat n) acc" and "0 \<le> n"
    and "f \<longleftrightarrow> 0 < n \<and> n \<le> int (length ks)"
    and "int (length ks) \<le> n"
  shows "keys_after n f k ks = most_recent (nat n) (acc @ [k])"
proof (cases "n = 0")
  case True
  then show ?thesis using assms(1) by (simp add: keys_after_def)
next
  case n: False
  show ?thesis
  proof (cases "k \<in> set ks")
    case True
    then show ?thesis
      using n assms(1) most_recent_hit [of k "nat n" acc] by (simp add: keys_after_def)
  next
    case False
    show ?thesis
    proof (cases f)
      case True
      then have "int (length ks) = n"
        using assms(3,4) by auto
      then have "length ks = nat n"
        by linarith
      then have "length (most_recent (nat n) acc) = nat n"
        using assms(1) by simp
      moreover have "0 < nat n" using n assms(2) by simp
      moreover have "k \<notin> set (most_recent (nat n) acc)" using False assms(1) by simp
      ultimately have "most_recent (nat n) (acc @ [k]) = tl (most_recent (nat n) acc) @ [k]"
        by (intro most_recent_miss_full)
      then show ?thesis
        using n False True assms(1) by (simp add: keys_after_def)
    next
      case nf: False
      then have "length (most_recent (nat n) acc) < nat n"
        using assms n by auto
      then show ?thesis
        using n False nf assms(1) most_recent_miss_room [of k "nat n" acc]
        by (simp add: keys_after_def)
    qed
  qed
qed

lemma cached_load_keys_subset:
  assumes "lru_inv n (cache s)"
  shows "fst ` set (entries (cache (snd (cached_load disk k s)))) \<subseteq>
           insert k (fst ` set (entries (cache s)))"
proof -
  have m: "maxsize (cache s) = Some n"
    using assms by (simp add: lru_inv_def)
  from m show ?thesis
  proof (cases rule: cached_load_cases [where k = k and disk = disk])
    case (hit d)
    then show ?thesis by auto
  next
    case (miss_ok d)
    have "set (tl (entries (cache s))) \<subseteq> set (entries (cache s))"
      by (cases "entries (cache s)") auto
    then show ?thesis
      using miss_ok(3) by (auto simp: lru_store_def Let_def)
  next
    case (miss_err e)
    then show ?thesis by auto
  qed
qed

lemma load_langs_lru_state:
  "lru_state n LL s \<Longrightarrow> lru_state n LL (snd (load_langs LL disk langs s))"
proof (induction langs arbitrary: s)
  case Nil
  then show ?case by simp
next
  case (Cons l langs)
  show ?case
  proof (cases "l \<in> set LL")
    case False
    have "lru_state n LL (s\<lparr>logged := logged s @ [LogError l]\<rparr>)"
      using Cons.prems by (simp add: lru_state_def)
    from Cons.IH [OF this] show ?thesis using False by simp
  next
    case True
    let ?s0 = "s\<lparr>logged := logged s @ [LogDebug l]\<rparr>"
    obtain r s1 where c: "cached_load disk l ?s0 = (r, s1)"
      by (cases "cached_load disk l ?s0")
    have i0: "lru_inv n (cache ?s0)"
      using Cons.prems by (simp add: lru_state_def)
    have "lru_inv n (cache s1)"
      using cached_load_inv [OF i0, of disk l] c by simp
    moreover have "fst ` set (entries (cache s1)) \<subseteq> set LL"
      using cached_load_keys_subset [OF i0, of disk l] c True Cons.prems
      by (auto simp: lru_state_def)
    ultimately have s1: "lru_state n LL s1"
      by (simp add: lru_state_def)
    show ?thesis
    proof (cases r)
      case (Inl e)
      then show ?thesis using True c s1 by simp
    next
      case (Inr d)
      have "lru_state n LL (s1\<lparr>data := AList.update l d (data s1)\<rparr>)"
        using s1 by (simp add: lru_state_def)
      from Cons.IH [OF this] show ?thesis using True c Inr by simp
    qed
  qed
qed

lemma load_langs_lru_trace:
  assumes "\<forall>l\<in>set LL. loadable disk l"
  shows "lru_inv n (cache s) \<Longrightarrow> lru_trace n s \<Longrightarrow>
    lru_trace n (snd (load_langs LL disk langs s))"
proof (induction langs arbitrary: s)
  case Nil
  then show ?case by simp
next
  case (Cons l langs)
  show ?case
  proof (cases "l \<in> set LL")
    case False
    have "lru_inv n (cache (s\<lparr>logged := logged s @ [LogError l]\<rparr>))"
      "lru_trace n (s\<lparr>logged := logged s @ [LogError l]\<rparr>)"
      using Cons.prems by (simp_all add: lru_trace_def)
    from Cons.IH [OF this] show ?thesis using False by simp
  next
    case True
    let ?s0 = "s\<lparr>logged := logged s @ [LogDebug l]\<rparr>"
    obtain r s1 where c: "cached_load disk l ?s0 = (r, s1)"
      by (cases "cached_load disk l ?s0")
    have ld: "loadable disk l" using assms True by simp
    have i0: "lru_inv n (cache ?s0)"
      using Cons.prems by simp
    have i1: "lru_inv n (cache s1)"
      using cached_load_inv [OF i0, of disk l] c by simp
    have "map fst (entries (cache s1)) =
        keys_after n (full (cache s)) l (map fst (entries (cache s)))"
      using cached_load_keys [OF i0 ld] c by simp
    also have "\<dots> = most_recent (nat n) (requested (logged s) @ [l])"
    proof (rule keys_after_most_recent)
      show "map fst (entries (cache s)) = most_recent (nat n) (requested (logged s))"
        using Cons.prems(2) by (simp add: lru_trace_def)
      show "0 \<le> n" using Cons.prems(1) by (simp add: lru_inv_def)
      show "full (cache s) \<longleftrightarrow> 0 < n \<and> n \<le> int (length (map fst (entries (cache s))))"
        using Cons.prems(1) by (simp add: lru_inv_def)
      show "int (length (map fst (entries (cache s)))) \<le> n"
        using Cons.prems(1) by (simp add: lru_inv_def)
    qed
    finally have t1: "lru_trace n s1"
      using cached_load_logged [of disk l ?s0] c by (simp add: lru_trace_def)
    show ?thesis
    proof (cases r)
      case (Inl e)
      then show ?thesis using cached_load_error [of disk l ?s0 e s1] c ld by simp
    next
      case (Inr d)
      have "lru_inv n (cache (s1\<lparr>data := AList.update l d (data s1)\<rparr>))"
        "lru_trace n (s1\<lparr>data := AList.update l d (data s1)\<rparr>)"
        using i1 t1 by (simp_all add: lru_trace_def)
      from Cons.IH [OF this] show ?thesis using True c Inr by simp
    qed
  qed
qed

lemma get_dictionaries_snd:
  "snd (get_dictionaries LL disk v s) = s \<or>
   (\<exists>langs. snd (get_dictionaries LL disk v s) = snd (load_langs LL disk langs (s\<lparr>data := []\<rparr>)))"
proof (cases "control_lang v")
  case (Inl e)
  then show ?thesis by (simp add: get_dictionaries_def)
next
  case (Inr langs)
  then have "v = PStr (hd langs) \<or> v = PTuple langs"
    by (cases v) (auto simp: control_lang_def)
  moreover have "v = PStr (hd langs) \<Longrightarrow> langs = [hd langs]"
    using Inr by (simp add: control_lang_def)
  ultimately have "get_dictionaries LL disk v s = get_dictionaries LL disk (PTuple langs) s"
    by (metis get_dictionaries_str)
  then have "snd (get_dictionaries LL disk v s) = snd (load_langs LL disk langs (s\<lparr>data := []\<rparr>))"
    by (simp add: get_dictionaries_tuple split: prod.splits option.splits)
  then show ?thesis by blast
qed

lemma get_dictionaries_lru_state:
  assumes "lru_state n LL s"
  shows "lru_state n LL (snd (get_dictionaries LL disk v s))"
proof -
  have "lru_state n LL (s\<lparr>data := []\<rparr>)"
    using assms by (simp add: lru_state_def)
  then have "lru_state n LL (snd (load_langs LL disk langs (s\<lparr>data := []\<rparr>)))" for langs
    by (rule load_langs_lru_state)
  then show ?thesis
    using get_dictionaries_snd [of LL disk v s] assms by auto
qed

lemma get_dictionaries_lru_trace:
  assumes "\<forall>l\<in>set LL. loadable disk l" and "lru_inv n (cache s)" and "lru_trace n s"
  shows "lru_trace n (snd (get_dictionaries LL disk v s))"
proof -
  have "lru_inv n (cache (s\<lparr>data := []\<rparr>))" "lru_trace n (s\<lparr>data := []\<rparr>)"
    using assms by (simp_all add: lru_trace_def)
  then have "lru_trace n (snd (load_langs LL disk langs (s\<lparr>data := []\<rparr>)))" for langs
    by (rule load_langs_lru_trace [OF assms(1)])
  then show ?thesis
    using get_dictionaries_snd [of LL disk v s] assms(3) by auto
qed

lemma run_calls_lru_state:
  "lru_state n LL s \<Longrightarrow> lru_state n LL (run_calls LL disk calls s)"
  by (induction calls arbitrary: s) (simp_all add: get_dictionaries_lru_state)

lemma run_calls_lru_trace:
  assumes "\<forall>l\<in>set LL. loadable disk l"
  shows "lru_state n LL s \<Longrightarrow> lru_trace n s \<Longrightarrow> lru_trace n (run_calls LL disk calls s)"
proof (induction calls arbitrary: s)
  case Nil
  then show ?case by simp
next
  case (Cons v calls)
  have "lru_state n LL (snd (get_dictionaries LL disk v s))"
    using Cons.prems(1) by (rule get_dictionaries_lru_state)
  moreover have "lru_trace n (snd (get_dictionaries LL disk v s))"
    using assms Cons.prems by (intro get_dictionaries_lru_trace) (simp_all add: lru_state_def)
  ultimately show ?case
    using Cons.IH by simp
qed

lemma fresh_lru_state: "lru_state (max 0 N) LL (DictionaryFactory (Some N))"
  by (simp add: lru_state_def lru_inv_def DictionaryFactory_def new_lru_cache_def max_def)

lemma fresh_lru_trace: "lru_trace (max 0 N) (DictionaryFactory (Some N))"
  by (simp add: lru_trace_def DictionaryFactory_def new_lru_cache_def most_recent_def)

lemma get_dictionaries_single_snd:
  assumes "lang \<in> set LL"
  shows "snd (get_dictionaries LL disk (PStr lang) s) =
     (case cached_load disk lang (s\<lparr>data := [], logged := logged s @ [LogDebug lang]\<rparr>) of
        (Inl e, s1) \<Rightarrow> s1
      | (Inr d, s1) \<Rightarrow> s1\<lparr>data := AList.update lang d (data s1)\<rparr>)"
  using assms
  by (simp add: get_dictionaries_str get_dictionaries_tuple split: prod.splits sum.splits)

lemma get_dictionaries_single_miss:
  assumes "lang \<in> set LL" and "maxsize (cache s) = Some n"
    and "lang \<notin> fst ` set (entries (cache s))"
  shows "opened (snd (get_dictionaries LL disk (PStr lang) s)) =
           opened s @ [dictionary_path lang]"
proof -
  let ?s0 = "s\<lparr>data := [], logged := logged s @ [LogDebug lang]\<rparr>"
  have m: "maxsize (cache ?s0) = Some n" using assms(2) by simp
  from m show ?thesis
  proof (cases rule: cached_load_cases [where k = lang and disk = disk])
    case (hit d)
    then show ?thesis using assms(3) by (simp add: map_of_eq_None_iff [symmetric])
  next
    case (miss_ok d)
    then show ?thesis by (simp add: get_dictionaries_single_snd [OF assms(1)])
  next
    case (miss_err e)
    then show ?thesis by (simp add: get_dictionaries_single_snd [OF assms(1)])
  qed
qed

lemma get_dictionaries_evicts:
  assumes "lru_state n LL s" and "0 < n" and "int (length (entries (cache s))) = n"
    and "lang \<in> set LL" and "lang \<notin> fst ` set (entries (cache s))"
    and "disk (dictionary_path lang) = Pickled (PDict d)"
  shows "entries (cache (snd (get_dictionaries LL disk (PStr lang) s))) =
           tl (entries (cache s)) @ [(lang, d)]"
proof -
  let ?s0 = "s\<lparr>data := [], logged := logged s @ [LogDebug lang]\<rparr>"
  have inv: "lru_inv n (cache s)" using assms(1) by (simp add: lru_state_def)
  then have f: "full (cache s)" using assms(2,3) by (simp add: lru_inv_def)
  have m: "maxsize (cache ?s0) = Some n" using inv by (simp add: lru_inv_def)
  from m show ?thesis
  proof (cases rule: cached_load_cases [where k = lang and disk = disk])
    case (hit d')
    then show ?thesis using assms(5) by (simp add: map_of_eq_None_iff [symmetric])
  next
    case (miss_ok d')
    then have "d' = d" using assms(6) by simp
    then show ?thesis
      using miss_ok(3) assms(2,5) f
      by (simp add: get_dictionaries_single_snd [OF assms(4)] lru_store_def)
  next
    case (miss_err e)
    then show ?thesis using assms(6) by (simp add: loadable_def)
  qed
qed

lemma example_run:
  "run_calls [''en'', ''de'', ''fr''] example_disk [PStr ''en'', PStr ''de'', PStr ''en'']
     (DictionaryFactory (Some 2)) =
   \<lparr>data = [(''en'', [(''dogs'', ''dog'')])],
    cache = \<lparr>maxsize = Some 2,
             entries = [(''de'', [(''Hunde'', ''Hund'')]), (''en'', [(''dogs'', ''dog'')])],
             hits = 1, misses = 2, full = True\<rparr>,
    opened = [''data/en.plzma'', ''data/de.plzma''],
    logged = [LogDebug ''en'', LogDebug ''de'', LogDebug ''en'']\<rparr>"
  by (simp add: get_dictionaries_str get_dictionaries_tuple DictionaryFactory_def new_lru_cache_def
      cached_load_def load_dictionary_from_disk_def example_disk_simps lru_store_def Let_def)
    (simp add: dictionary_path_def)

lemma example_request_fr:
  "opened (snd (get_dictionaries [''en'', ''de'', ''fr''] example_disk (PStr ''fr'')
     \<lparr>data = [(''en'', [(''dogs'', ''dog'')])],
      cache = \<lparr>maxsize = Some 2,
               entries = [(''de'', [(''Hunde'', ''Hund'')]), (''en'', [(''dogs'', ''dog'')])],
               hits = 1, misses = 2, full = True\<rparr>,
      opened = [''data/en.plzma'', ''data/de.plzma''],
      logged = [LogDebug ''en'', LogDebug ''de'', LogDebug ''en'']\<rparr>)) =
   [''data/en.plzma'', ''data/de.plzma'', ''data/fr.plzma'']"
  by (simp add: get_dictionaries_str get_dictionaries_tuple
      cached_load_def load_dictionary_from_disk_def example_disk_simps lru_store_def Let_def)
    (simp add: dictionary_path_def)

subsection \<open>A string as the requested languages\<close>

lemma control_lang_simps:
  "control_lang (PStr x) = Inr [x]"
  "control_lang (PTuple xs) = Inr xs"
  "control_lang PNone = Inl TypeError"
  by (simp_all add: control_lang_def)

lemma get_dictionaries_tuple_no_type_error:
  "fst (get_dictionaries LL disk (PTuple xs) s) \<noteq> Inl TypeError"
proof -
  obtain r s3 where l: "load_langs LL disk xs (s\<lparr>data := []\<rparr>) = (r, s3)"
    by (cases "load_langs LL disk xs (s\<lparr>data := []\<rparr>)")
  show ?thesis
  proof (cases r)
    case None
    then show ?thesis using l by (simp add: get_dictionaries_tuple)
  next
    case (Some e)
    then have "e \<in> {FileNotFoundError, CorruptDataError, AssertionError}"
      using load_langs_error [of LL disk xs _ e s3] l by simp
    then show ?thesis using l Some by (auto simp: get_dictionaries_tuple)
  qed
qed

lemma get_dictionaries_str_unsupported:
  "x \<notin> set LL \<Longrightarrow>
     get_dictionaries LL disk (PStr x) s =
       (Inr [], s\<lparr>data := [], logged := logged s @ [LogError x]\<rparr>)"
  by (simp add: get_dictionaries_str get_dictionaries_tuple)

lemma cached_load_miss_ok:
  assumes "k \<notin> fst ` set (entries (cache s))"
    and "disk (dictionary_path k) = Pickled (PDict d)"
  shows "fst (cached_load disk k s) = Inr d"
proof -
  have m: "map_of (entries (cache s)) k = None"
    using assms(1) by (simp add: map_of_None_keys)
  show ?thesis
    using assms(2)
    by (simp add: cached_load_def Let_def m load_dictionary_from_disk_def split: option.splits)
qed

lemma get_dictionaries_str_loaded:
  assumes "x \<in> set LL" and "x \<notin> fst ` set (entries (cache s))"
    and "disk (dictionary_path x) = Pickled (PDict d)"
  shows "fst (get_dictionaries LL disk (PStr x) s) = Inr [(x, d)]"
proof -
  let ?s0 = "s\<lparr>data := [], logged := logged s @ [LogDebug x]\<rparr>"
  have "fst (cached_load disk x ?s0) = Inr d"
    using assms(2,3) by (intro cached_load_miss_ok) simp_all
  then obtain s1 where c: "cached_load disk x ?s0 = (Inr d, s1)"
    by (cases "cached_load disk x ?s0") auto
  have "data s1 = []"
    using cached_load_data [of disk x ?s0] c by simp
  then show ?thesis
    using assms(1) c by (simp add: get_dictionaries_str get_dictionaries_tuple)
qed

subsection \<open>Claims about the dictionary factory\<close>

text \<open>
  Claim C1.  The test of the fast path compares a tuple with a list, which is never equal
  in Python, so a repeated request is not answered from the working set: on a fresh
  factory two successive requests for \<open>("en",)\<close> return equal mappings, but the second
  call rebuilds the working set, logs \<open>loading en\<close> again and goes through the cache
  (one more hit); only the disk is left alone.
\<close>

theorem get_dictionaries_repeated_request:
  "(\<forall>keys langs. \<not> py_eq (PTuple keys) (PList langs)) \<and>
   (let LANGLIST = [''en'', ''de''];
        (r1, s1) = get_dictionaries LANGLIST example_disk (PTuple [''en''])
                     (DictionaryFactory (Some 8));
        (r2, s2) = get_dictionaries LANGLIST example_disk (PTuple [''en'']) s1
    in map fst (data s1) = [''en''] \<and> r2 = r1 \<and> s2 \<noteq> s1 \<and>
       hits (cache s2) = hits (cache s1) + 1 \<and>
       logged s2 = logged s1 @ [LogDebug ''en''] \<and>
       opened s2 = opened s1)"
  unfolding Let_def first_call prod.case second_call by simp

text \<open>
  Claim C5.  A request for a tuple of languages that returns, returns a mapping whose
  keys are the supported languages of the request in request order (each once), and has
  logged one record per requested language, an error for each unsupported one.  A
  request fails only with an error of the loader for a supported language whose resource
  is not a pickled dict; when all supported languages of the request have one, the
  request returns, whatever unsupported codes it holds.
\<close>

theorem get_dictionaries_supported_subset:
  "(\<forall>ws s'. get_dictionaries LL disk (PTuple langs) s = (Inr ws, s') \<longrightarrow>
      map fst ws = first_occurrences (filter (\<lambda>l. l \<in> set LL) langs) \<and>
      data s' = ws \<and>
      logged s' = logged s @ map (\<lambda>l. if l \<in> set LL then LogDebug l else LogError l) langs) \<and>
   (\<forall>e s'. get_dictionaries LL disk (PTuple langs) s = (Inl e, s') \<longrightarrow>
      e \<in> {FileNotFoundError, CorruptDataError, AssertionError} \<and>
      (\<exists>l\<in>set langs. l \<in> set LL \<and>
         (\<forall>d. disk (dictionary_path l) \<noteq> Pickled (PDict d)))) \<and>
   ((\<forall>l\<in>set langs. l \<in> set LL \<longrightarrow> (\<exists>d. disk (dictionary_path l) = Pickled (PDict d))) \<longrightarrow>
      (\<exists>ws s'. get_dictionaries LL disk (PTuple langs) s = (Inr ws, s')))"
proof -
  obtain r s3 where l: "load_langs LL disk langs (s\<lparr>data := []\<rparr>) = (r, s3)"
    by (cases "load_langs LL disk langs (s\<lparr>data := []\<rparr>)")
  show ?thesis
  proof (cases r)
    case None
    then have g: "get_dictionaries LL disk (PTuple langs) s = (Inr (data s3), s3)"
      using l by (simp add: get_dictionaries_tuple)
    show ?thesis
      using load_langs_ok [OF l [unfolded None]] unfolding g
      by (simp add: foldl_first_occurrences)
  next
    case (Some e)
    then have g: "get_dictionaries LL disk (PTuple langs) s = (Inl e, s3)"
      using l by (simp add: get_dictionaries_tuple)
    show ?thesis
      using load_langs_error [OF l [unfolded Some]] unfolding g
      by (auto simp: loadable_def)
  qed
qed

theorem get_dictionaries_supported_subset_witness:
  "example_disk (dictionary_path ''en'') = Pickled (PDict [(''dogs'', ''dog'')]) \<and>
   example_disk (dictionary_path ''de'') = Pickled (PDict [(''Hunde'', ''Hund'')]) \<and>
   (\<exists>ws s'. get_dictionaries [''en'', ''de''] example_disk (PTuple [''en'', ''xx'', ''de''])
        (DictionaryFactory (Some 8)) = (Inr ws, s') \<and> map fst ws = [''en'', ''de''])"
proof -
  have h: "\<forall>l\<in>set [''en'', ''xx'', ''de'']. l \<in> set [''en'', ''de''] \<longrightarrow>
      (\<exists>d. example_disk (dictionary_path l) = Pickled (PDict d))"
    by (simp add: example_disk_simps)
  note t = get_dictionaries_supported_subset [of "[''en'', ''de'']" example_disk
      "[''en'', ''xx'', ''de'']" "DictionaryFactory (Some 8)"]
  from t h obtain ws s' where g: "get_dictionaries [''en'', ''de''] example_disk
      (PTuple [''en'', ''xx'', ''de'']) (DictionaryFactory (Some 8)) = (Inr ws, s')"
    by blast
  with t have "map fst ws = first_occurrences (filter (\<lambda>l. l \<in> set [''en'', ''de'']) [''en'', ''xx'', ''de''])"
    by blast
  then have k: "map fst ws = [''en'', ''de'']" by simp
  show ?thesis
  proof (intro conjI exI)
    show "get_dictionaries [''en'', ''de''] example_disk
      (PTuple [''en'', ''xx'', ''de'']) (DictionaryFactory (Some 8)) = (Inr ws, s')" by (rule g)
    show "map fst ws = [''en'', ''de'']" by (rule k)
  qed (simp_all add: example_disk_simps)
qed

text \<open>
  Claim C6.  An argument that is neither a string nor a tuple, \<open>None\<close> included, makes
  \<open>get_dictionaries\<close> raise \<open>TypeError\<close> and leaves working set, cache, opened
  files and log as they were.  A string is accepted and treated as the tuple holding it:
  the call never raises \<open>TypeError\<close>, returns the empty mapping for an unsupported code
  and the mapping from the code to its dictionary for a supported one.
\<close>

theorem get_dictionaries_type_error:
  "((\<forall>x. langs \<noteq> PStr x) \<and> (\<forall>xs. langs \<noteq> PTuple xs) \<longrightarrow>
      get_dictionaries LL disk langs s = (Inl TypeError, s)) \<and>
   get_dictionaries LL disk PNone s = (Inl TypeError, s) \<and>
   get_dictionaries LL disk (PStr x) s = get_dictionaries LL disk (PTuple [x]) s \<and>
   control_lang (PStr x) = Inr [x] \<and>
   control_lang (PTuple xs) = Inr xs \<and>
   fst (get_dictionaries LL disk (PStr x) s) \<noteq> Inl TypeError \<and>
   fst (get_dictionaries LL disk (PTuple xs) s) \<noteq> Inl TypeError \<and>
   (x \<notin> set LL \<longrightarrow>
      get_dictionaries LL disk (PStr x) s =
        (Inr [], s\<lparr>data := [], logged := logged s @ [LogError x]\<rparr>)) \<and>
   (\<forall>d. x \<in> set LL \<and> x \<notin> fst ` set (entries (cache s)) \<and>
        disk (dictionary_path x) = Pickled (PDict d) \<longrightarrow>
      fst (get_dictionaries LL disk (PStr x) s) = Inr [(x, d)])"
  apply (intro conjI allI impI)
  subgoal by (cases langs) (simp_all add: get_dictionaries_def control_lang_def)
  subgoal by (simp add: get_dictionaries_def control_lang_def)
  subgoal by (rule get_dictionaries_str)
  subgoal by (rule control_lang_simps)
  subgoal by (rule control_lang_simps)
  subgoal unfolding get_dictionaries_str by (rule get_dictionaries_tuple_no_type_error)
  subgoal by (rule get_dictionaries_tuple_no_type_error)
  subgoal by (rule get_dictionaries_str_unsupported)
  subgoal by (rule get_dictionaries_str_loaded) simp_all
  done

theorem get_dictionaries_type_error_witness:
  "((\<forall>x. PInt 3 \<noteq> PStr x) \<and> (\<forall>xs. PInt 3 \<noteq> PTuple xs)) \<and>
   get_dictionaries [''en''] example_disk (PInt 3) (DictionaryFactory (Some 8)) =
     (Inl TypeError, DictionaryFactory (Some 8)) \<and>
   ''en'' \<in> set [''en''] \<and>
   ''en'' \<notin> fst ` set (entries (cache (DictionaryFactory (Some 8)))) \<and>
   example_disk (dictionary_path ''en'') = Pickled (PDict [(''dogs'', ''dog'')]) \<and>
   fst (get_dictionaries [''en''] example_disk (PStr ''en'') (DictionaryFactory (Some 8))) =
     Inr [(''en'', [(''dogs'', ''dog'')])] \<and>
   ''xx'' \<notin> set [''en''] \<and>
   fst (get_dictionaries [''en''] example_disk (PStr ''xx'') (DictionaryFactory (Some 8))) = Inr []"
proof -
  note t1 = get_dictionaries_type_error [of "PInt 3" "[''en'']" example_disk
      "DictionaryFactory (Some 8)" "''en''" "[]"]
  note t2 = get_dictionaries_type_error [of "PInt 3" "[''en'']" example_disk
      "DictionaryFactory (Some 8)" "''xx''" "[]"]
  have a: "(\<forall>x. PInt 3 \<noteq> PStr x) \<and> (\<forall>xs. PInt 3 \<noteq> PTuple xs)"
    by simp
  have b: "get_dictionaries [''en''] example_disk (PInt 3) (DictionaryFactory (Some 8)) =
     (Inl TypeError, DictionaryFactory (Some 8))"
    using t1 [THEN conjunct1] a by (rule mp)
  have c: "''en'' \<in> set [''en'']"
    "''en'' \<notin> fst ` set (entries (cache (DictionaryFactory (Some 8))))"
    "example_disk (dictionary_path ''en'') = Pickled (PDict [(''dogs'', ''dog'')])"
    "''xx'' \<notin> set [''en'']"
    by (simp_all add: DictionaryFactory_def new_lru_cache_def example_disk_simps)
  have d: "fst (get_dictionaries [''en''] example_disk (PStr ''en'') (DictionaryFactory (Some 8))) =
     Inr [(''en'', [(''dogs'', ''dog'')])]"
    by (rule t1 [THEN conjunct2, THEN conjunct2, THEN conjunct2, THEN conjunct2, THEN conjunct2, THEN conjunct2, THEN conjunct2, THEN conjunct2, rule_format])
      (intro conjI c(1,2,3))
  have e: "fst (get_dictionaries [''en''] example_disk (PStr ''xx'') (DictionaryFactory (Some 8))) =
      Inr []"
    using t2 [THEN conjunct2, THEN conjunct2, THEN conjunct2, THEN conjunct2, THEN conjunct2, THEN conjunct2, THEN conjunct2, THEN conjunct1, rule_format, OF c(4)]
    by simp
  show ?thesis
    by (intro conjI a [THEN conjunct1] a [THEN conjunct2] b c d e)
qed

text \<open>
  Claim C7.  The loader opens the resource of the language and returns a dict exactly
  when the resource unpickles to one; a missing resource gives
  \<open>FileNotFoundError\<close>, a malformed one a corrupt-data error, another pickled object
  an \<open>AssertionError\<close>.  The error reaches the caller of \<open>get_dictionaries\<close> when the
  language is supported and not in the cache.
\<close>

theorem load_dictionary_from_disk_errors:
  "snd (load_dictionary_from_disk disk langcode s) =
     s\<lparr>opened := opened s @ [dictionary_path langcode]\<rparr> \<and>
   (disk (dictionary_path langcode) = Missing \<longrightarrow>
      fst (load_dictionary_from_disk disk langcode s) = Inl FileNotFoundError) \<and>
   (disk (dictionary_path langcode) = Malformed \<longrightarrow>
      fst (load_dictionary_from_disk disk langcode s) = Inl CorruptDataError) \<and>
   (\<forall>v. disk (dictionary_path langcode) = Pickled v \<and> (\<forall>d. v \<noteq> PDict d) \<longrightarrow>
      fst (load_dictionary_from_disk disk langcode s) = Inl AssertionError) \<and>
   (\<forall>d. fst (load_dictionary_from_disk disk langcode s) = Inr d \<longleftrightarrow>
      disk (dictionary_path langcode) = Pickled (PDict d)) \<and>
   (\<forall>e. langcode \<in> set LL \<and> langcode \<notin> fst ` set (entries (cache s)) \<and>
      fst (load_dictionary_from_disk disk langcode s) = Inl e \<longrightarrow>
      fst (get_dictionaries LL disk (PStr langcode) s) = Inl e)"
  apply (intro conjI allI impI)
  subgoal by (simp add: load_dictionary_from_disk_def Let_def split: resource.splits pyval.splits)
  subgoal by (simp add: load_dictionary_from_disk_def Let_def)
  subgoal by (simp add: load_dictionary_from_disk_def Let_def)
  subgoal by (auto simp: load_dictionary_from_disk_def Let_def split: pyval.splits)
  subgoal by (auto simp: load_dictionary_from_disk_def Let_def split: resource.splits pyval.splits)
  subgoal by (rule get_dictionaries_single_error) simp_all
  done

theorem load_dictionary_from_disk_errors_witness:
  "example_disk (dictionary_path ''es'') = Missing \<and>
   fst (load_dictionary_from_disk example_disk ''es'' (DictionaryFactory (Some 8))) =
     Inl FileNotFoundError \<and>
   example_disk (dictionary_path ''it'') = Malformed \<and>
   fst (load_dictionary_from_disk example_disk ''it'' (DictionaryFactory (Some 8))) =
     Inl CorruptDataError \<and>
   ''es'' \<in> set [''en'', ''es''] \<and>
   ''es'' \<notin> fst ` set (entries (cache (DictionaryFactory (Some 8)))) \<and>
   fst (get_dictionaries [''en'', ''es''] example_disk (PStr ''es'') (DictionaryFactory (Some 8))) =
     Inl FileNotFoundError"
proof -
  have m: "example_disk (dictionary_path ''es'') = Missing"
    and c: "example_disk (dictionary_path ''it'') = Malformed"
    by (simp_all add: example_disk_simps)
  have k: "''es'' \<in> set [''en'', ''es'']"
    "''es'' \<notin> fst ` set (entries (cache (DictionaryFactory (Some 8))))"
    by (simp_all add: DictionaryFactory_def new_lru_cache_def)
  note t1 = load_dictionary_from_disk_errors [of example_disk "''es''" "DictionaryFactory (Some 8)"
      "[''en'', ''es'']"]
  note t2 = load_dictionary_from_disk_errors [of example_disk "''it''" "DictionaryFactory (Some 8)"
      "[''en'', ''es'']"]
  have e1: "fst (load_dictionary_from_disk example_disk ''es'' (DictionaryFactory (Some 8))) =
     Inl FileNotFoundError"
    using t1 m by blast
  have e2: "fst (load_dictionary_from_disk example_disk ''it'' (DictionaryFactory (Some 8))) =
     Inl CorruptDataError"
    using t2 c by blast
  have e3: "fst (get_dictionaries [''en'', ''es''] example_disk (PStr ''es'')
      (DictionaryFactory (Some 8))) = Inl FileNotFoundError"
    using t1 k e1 by blast
  show ?thesis
    by (intro conjI m c k e1 e2 e3)
qed

text \<open>
  Claim C9.  Whatever the working set, a request for the empty tuple returns the empty
  mapping, resets the working set to empty and touches neither cache, disk nor log.
\<close>

theorem get_dictionaries_empty_tuple:
  "get_dictionaries LL disk (PTuple []) s = (Inr [], s\<lparr>data := []\<rparr>) \<and>
   data (snd (get_dictionaries LL disk (PTuple []) s)) = [] \<and>
   cache (snd (get_dictionaries LL disk (PTuple []) s)) = cache s \<and>
   opened (snd (get_dictionaries LL disk (PTuple []) s)) = opened s"
  by (simp add: get_dictionaries_tuple)

text \<open>
  Claim C4.  After any sequence of calls on a factory built with capacity \<open>N\<close>, the
  cache of the loader holds at most \<open>N\<close> dictionaries, for distinct languages (at most
  \<open>8\<close> with the default capacity).  When every supported language has a dictionary on
  disk, the cached languages are the \<open>N\<close> most recently requested supported ones, in the
  order of their last request.  When the cache is full and a supported language that is
  not cached is requested, the least recently used entry, the first one, is replaced by
  the new one, and the next request for the evicted language opens its file again.
\<close>

theorem lru_cache_bounded:
  assumes "s = run_calls LANGLIST disk calls (DictionaryFactory (Some N))"
  shows "length (entries (cache s)) \<le> nat N \<and>
    distinct (map fst (entries (cache s))) \<and>
    length (entries (cache (run_calls LANGLIST disk calls
      (DictionaryFactory default_cache_max_size)))) \<le> 8 \<and>
    ((\<forall>l\<in>set LANGLIST. \<exists>d. disk (dictionary_path l) = Pickled (PDict d)) \<longrightarrow>
       map fst (entries (cache s)) = most_recent (nat N) (requested (logged s))) \<and>
    (\<forall>lang d.
       0 < N \<and> int (length (entries (cache s))) = N \<and> lang \<in> set LANGLIST \<and>
       lang \<notin> fst ` set (entries (cache s)) \<and>
       disk (dictionary_path lang) = Pickled (PDict d) \<longrightarrow>
       (let s' = snd (get_dictionaries LANGLIST disk (PStr lang) s);
            old = fst (hd (entries (cache s)))
        in entries (cache s') = tl (entries (cache s)) @ [(lang, d)] \<and>
           old \<notin> fst ` set (entries (cache s')) \<and>
           opened (snd (get_dictionaries LANGLIST disk (PStr old) s')) =
             opened s' @ [dictionary_path old]))"
proof -
  have st: "lru_state (max 0 N) LANGLIST s"
    unfolding assms by (rule run_calls_lru_state) (rule fresh_lru_state)
  then have inv: "lru_inv (max 0 N) (cache s)"
    by (simp add: lru_state_def)
  have bound: "length (entries (cache s)) \<le> nat N"
    using inv by (auto simp: lru_inv_def)
  have dist: "distinct (map fst (entries (cache s)))"
    using inv by (simp add: lru_inv_def)
  have "lru_state (max 0 8) LANGLIST
      (run_calls LANGLIST disk calls (DictionaryFactory default_cache_max_size))"
    unfolding default_cache_max_size_def by (rule run_calls_lru_state) (rule fresh_lru_state)
  then have dflt: "length (entries (cache (run_calls LANGLIST disk calls
      (DictionaryFactory default_cache_max_size)))) \<le> 8"
    by (simp add: lru_state_def lru_inv_def)
  have trace: "map fst (entries (cache s)) = most_recent (nat N) (requested (logged s))"
    if "\<forall>l\<in>set LANGLIST. \<exists>d. disk (dictionary_path l) = Pickled (PDict d)"
  proof -
    have "\<forall>l\<in>set LANGLIST. loadable disk l"
      using that by (simp add: loadable_def)
    then have "lru_trace (max 0 N) s"
      unfolding assms
      by (rule run_calls_lru_trace) (rule fresh_lru_state, rule fresh_lru_trace)
    moreover have "nat (max 0 N) = nat N" by simp
    ultimately show ?thesis by (simp add: lru_trace_def)
  qed
  have evict: "let s' = snd (get_dictionaries LANGLIST disk (PStr lang) s);
            old = fst (hd (entries (cache s)))
        in entries (cache s') = tl (entries (cache s)) @ [(lang, d)] \<and>
           old \<notin> fst ` set (entries (cache s')) \<and>
           opened (snd (get_dictionaries LANGLIST disk (PStr old) s')) =
             opened s' @ [dictionary_path old]"
    if h: "0 < N \<and> int (length (entries (cache s))) = N \<and> lang \<in> set LANGLIST \<and>
       lang \<notin> fst ` set (entries (cache s)) \<and>
       disk (dictionary_path lang) = Pickled (PDict d)" for lang d
  proof -
    let ?s' = "snd (get_dictionaries LANGLIST disk (PStr lang) s)"
    let ?old = "fst (hd (entries (cache s)))"
    have N: "max 0 N = N" using h by simp
    have st': "lru_state N LANGLIST s"
      using st N by simp
    have e: "entries (cache ?s') = tl (entries (cache s)) @ [(lang, d)]"
      using st' h by (intro get_dictionaries_evicts [where n = N]) simp_all
    obtain p ps where ps: "entries (cache s) = p # ps"
      using h by (cases "entries (cache s)") auto
    have old: "?old \<notin> fst ` set (entries (cache ?s'))"
      using dist h unfolding e ps by auto
    have "lru_state (max 0 N) LANGLIST ?s'"
      using st by (rule get_dictionaries_lru_state)
    then have m: "maxsize (cache ?s') = Some (max 0 N)"
      by (simp add: lru_state_def lru_inv_def)
    have "?old \<in> set LANGLIST"
      using st ps by (auto simp: lru_state_def)
    then have "opened (snd (get_dictionaries LANGLIST disk (PStr ?old) ?s')) =
        opened ?s' @ [dictionary_path ?old]"
      using m old by (rule get_dictionaries_single_miss)
    then show ?thesis
      using e old by (simp add: Let_def)
  qed
  show ?thesis
    using bound dist dflt trace evict by blast
qed

theorem lru_cache_bounded_witness:
  "map fst (entries (cache
     (run_calls [''en'', ''de'', ''fr''] example_disk [PStr ''en'', PStr ''de'', PStr ''en'']
        (DictionaryFactory (Some 2))))) = [''de'', ''en''] \<and>
   map fst (entries (cache (snd
     (get_dictionaries [''en'', ''de'', ''fr''] example_disk (PStr ''fr'')
        (run_calls [''en'', ''de'', ''fr''] example_disk [PStr ''en'', PStr ''de'', PStr ''en'']
           (DictionaryFactory (Some 2))))))) = [''en'', ''fr''] \<and>
   opened (snd
     (get_dictionaries [''en'', ''de'', ''fr''] example_disk (PStr ''de'')
        (snd (get_dictionaries [''en'', ''de'', ''fr''] example_disk (PStr ''fr'')
           (run_calls [''en'', ''de'', ''fr''] example_disk [PStr ''en'', PStr ''de'', PStr ''en'']
              (DictionaryFactory (Some 2))))))) =
     [''data/en.plzma'', ''data/de.plzma'', ''data/fr.plzma'', ''data/de.plzma'']"
proof -
  define s where "s = run_calls [''en'', ''de'', ''fr''] example_disk
      [PStr ''en'', PStr ''de'', PStr ''en''] (DictionaryFactory (Some 2))"
  note t = lru_cache_bounded [OF s_def]
  have s: "s = \<lparr>data = [(''en'', [(''dogs'', ''dog'')])],
      cache = \<lparr>maxsize = Some 2,
               entries = [(''de'', [(''Hunde'', ''Hund'')]), (''en'', [(''dogs'', ''dog'')])],
               hits = 1, misses = 2, full = True\<rparr>,
      opened = [''data/en.plzma'', ''data/de.plzma''],
      logged = [LogDebug ''en'', LogDebug ''de'', LogDebug ''en'']\<rparr>"
    unfolding s_def by (rule example_run)
  have h: "0 < (2::int) \<and> int (length (entries (cache s))) = 2 \<and>
      ''fr'' \<in> set [''en'', ''de'', ''fr''] \<and> ''fr'' \<notin> fst ` set (entries (cache s)) \<and>
      example_disk (dictionary_path ''fr'') = Pickled (PDict [(''chiens'', ''chien'')])"
    by (simp add: s example_disk_simps)
  let ?s' = "snd (get_dictionaries [''en'', ''de'', ''fr''] example_disk (PStr ''fr'') s)"
  from t h have "let s' = ?s'; old = fst (hd (entries (cache s)))
        in entries (cache s') = tl (entries (cache s)) @ [(''fr'', [(''chiens'', ''chien'')])] \<and>
           old \<notin> fst ` set (entries (cache s')) \<and>
           opened (snd (get_dictionaries [''en'', ''de'', ''fr''] example_disk (PStr old) s')) =
             opened s' @ [dictionary_path old]"
    by blast
  then have e: "entries (cache ?s') = tl (entries (cache s)) @ [(''fr'', [(''chiens'', ''chien'')])]"
    and o: "opened (snd (get_dictionaries [''en'', ''de'', ''fr''] example_disk
        (PStr (fst (hd (entries (cache s))))) ?s')) =
      opened ?s' @ [dictionary_path (fst (hd (entries (cache s))))]"
    by (simp_all add: Let_def)
  have old: "fst (hd (entries (cache s))) = ''de''"
    by (simp add: s)
  have os': "opened ?s' = [''data/en.plzma'', ''data/de.plzma'', ''data/fr.plzma'']"
    unfolding s by (rule example_request_fr)
  have 1: "map fst (entries (cache s)) = [''de'', ''en'']"
    by (simp add: s)
  have 2: "map fst (entries (cache ?s')) = [''en'', ''fr'']"
    unfolding e by (simp add: s)
  have 3: "opened (snd (get_dictionaries [''en'', ''de'', ''fr''] example_disk (PStr ''de'') ?s')) =
      [''data/en.plzma'', ''data/de.plzma'', ''data/fr.plzma'', ''data/de.plzma'']"
    using o unfolding old os' by (simp add: dictionary_path_def)
  show ?thesis
    using 1 2 3 unfolding s_def by (intro conjI)
qed

end
